theory Spec2Isabelle
  imports Main "HOL-Library.Word" "HOL-Library.Sublist"
begin

unbundle bit_operations_syntax

section \<open>Data model of src/utils/steganography.ts (image codec)\<close>

text \<open>
  The pixel data of a canvas is a \<open>Uint8ClampedArray\<close>: a flat array of bytes, four per
  pixel (red, green, blue, alpha). A JavaScript string is a sequence of UTF-16 code units.
  The strings \<open>binaryMessage\<close> and \<open>binary\<close> of the source only ever hold the characters
  \<open>0\<close> and \<open>1\<close>; they are lists of bits here, \<open>True\<close> for the character \<open>1\<close>.
\<close>

type_synonym byte = "8 word"
type_synonym codeunit = "16 word"
type_synonym jsstring = "codeunit list"
type_synonym bits = "bool list"

text \<open>A string literal of the source, as code units.\<close>

definition js :: "string \<Rightarrow> jsstring" where
  "js s = map (\<lambda>c. of_nat (of_char c)) s"

definition START_MARKER :: jsstring where
  "START_MARKER = js ''<<START>>''"

definition END_MARKER :: jsstring where
  "END_MARKER = js ''<<END>>''"

text \<open>The one error \<open>encodeMessage\<close> raises on its own:
  \<open>Error("Message is too large for this image")\<close>.\<close>

datatype error = CapacityExceeded

section \<open>String primitives of the JavaScript library\<close>

text \<open>\<open>n.toString(2)\<close>: the binary digits of a non-negative integer, most significant
  first, without leading zeros (\<open>"0"\<close> for zero).\<close>

fun toString2 :: "nat \<Rightarrow> bits" where
  "toString2 n = (if n < 2 then [odd n] else toString2 (n div 2) @ [odd n])"

declare toString2.simps [simp del]

text \<open>\<open>s.padStart(n, c)\<close> for a one-character pad: pads on the left up to length \<open>n\<close> and
  never shortens.\<close>

definition padStart :: "nat \<Rightarrow> 'a \<Rightarrow> 'a list \<Rightarrow> 'a list" where
  "padStart n c s = replicate (n - length s) c @ s"

text \<open>\<open>parseInt(byte, 2)\<close> on a non-empty string of binary digits.\<close>

definition parseInt2 :: "bits \<Rightarrow> nat" where
  "parseInt2 bs = foldl (\<lambda>acc b. 2 * acc + (if b then 1 else 0)) 0 bs"

text \<open>\<open>String.fromCharCode(n)\<close>: the code unit \<open>n mod 2^16\<close>.\<close>

definition fromCharCode :: "nat \<Rightarrow> codeunit" where
  "fromCharCode n = of_nat n"

text \<open>\<open>s.substring(a, b)\<close>: negative arguments count as 0, arguments beyond the length as
  the length, and the two are swapped when \<open>a > b\<close>.\<close>

definition substring :: "'a list \<Rightarrow> int \<Rightarrow> int \<Rightarrow> 'a list" where
  "substring s a b = (let lo = nat (min a b); hi = nat (max a b) in take (hi - lo) (drop lo s))"

text \<open>\<open>s.indexOf(p)\<close>: the least position at which \<open>p\<close> occurs in \<open>s\<close>, or \<open>-1\<close>.\<close>

fun indexOf_from :: "'a list \<Rightarrow> 'a list \<Rightarrow> nat \<Rightarrow> int" where
  "indexOf_from [] p i = (if p = [] then int i else -1)"
| "indexOf_from (x # xs) p i = (if prefix p (x # xs) then int i else indexOf_from xs p (i + 1))"

definition indexOf :: "'a list \<Rightarrow> 'a list \<Rightarrow> int" where
  "indexOf s p = indexOf_from s p 0"

text \<open>\<open>s.includes(p)\<close> is true exactly when \<open>s.indexOf(p)\<close> is not \<open>-1\<close>.\<close>

definition includes_js :: "'a list \<Rightarrow> 'a list \<Rightarrow> bool" where
  "includes_js s p = (indexOf s p \<noteq> -1)"

section \<open>encodeMessage\<close>

text \<open>Line 38: \<open>`<<START>>${message}<<END>>`\<close>.\<close>

definition messageWithMarker :: "jsstring \<Rightarrow> jsstring" where
  "messageWithMarker message = START_MARKER @ message @ END_MARKER"

text \<open>Lines 41-47: each code unit contributes \<open>charCodeAt(i).toString(2).padStart(8, "0")\<close>,
  appended in order.\<close>

fun toBinary :: "jsstring \<Rightarrow> bits" where
  "toBinary [] = []"
| "toBinary (c # cs) = padStart 8 False (toString2 (unat c)) @ toBinary cs"

definition binaryMessage :: "jsstring \<Rightarrow> bits" where
  "binaryMessage message = toBinary (messageWithMarker message)"

text \<open>Line 70: \<open>data[dataIndex] = (data[dataIndex] & 0xfe) | bit\<close>. A write beyond the end
  of a typed array is ignored.\<close>

definition writeLSB :: "byte list \<Rightarrow> nat \<Rightarrow> bool \<Rightarrow> byte list" where
  "writeLSB data dataIndex b =
     (if dataIndex < length data
      then data[dataIndex := (data ! dataIndex AND 0xfe) OR (if b then 1 else 0)]
      else data)"

text \<open>Lines 64-76, the loop over the channels of one pixel. The state is the buffer and
  \<open>messageBitIndex\<close>.\<close>

function embed_channels :: "bits \<Rightarrow> nat \<Rightarrow> nat \<Rightarrow> byte list \<times> nat \<Rightarrow> byte list \<times> nat" where
  "embed_channels bm pixelIndex channel (data, messageBitIndex) =
     (if channel < 3 then
        (if messageBitIndex < length bm then
           embed_channels bm pixelIndex (channel + 1)
             (writeLSB data (pixelIndex * 4 + channel) (bm ! messageBitIndex), messageBitIndex + 1)
         else (data, messageBitIndex))
      else (data, messageBitIndex))"
  by pat_completeness auto
termination
  by (relation "measure (\<lambda>(bm, pixelIndex, channel, s). 3 - channel)") auto

declare embed_channels.simps [simp del]

text \<open>Lines 62-81, the loop over the pixels: \<open>pixelIndex < data.length / 4\<close> is a comparison
  of reals, so it is \<open>4 * pixelIndex < data.length\<close>.\<close>

function embed_pixels :: "bits \<Rightarrow> nat \<Rightarrow> byte list \<times> nat \<Rightarrow> byte list \<times> nat" where
  "embed_pixels bm pixelIndex (data, messageBitIndex) =
     (if 4 * pixelIndex < length data then
        (let s' = embed_channels bm pixelIndex 0 (data, messageBitIndex) in
         if snd s' \<ge> length bm then s' else embed_pixels bm (pixelIndex + 1) s')
      else (data, messageBitIndex))"
  by pat_completeness auto
termination
proof (relation "measure (\<lambda>(bm, pixelIndex, s). length (fst s) - 4 * pixelIndex)", goal_cases)
  case 1
  show ?case by simp
next
  case (2 bm pixelIndex data messageBitIndex s')
  have len: "length (fst (embed_channels bm p c s)) = length (fst s)" for p c s
  proof (induction bm p c s rule: embed_channels.induct)
    case (1 bm p c data k)
    then show ?case
      by (simp add: embed_channels.simps [of bm p c data k] writeLSB_def)
  qed
  from 2 show ?case
    using len [of pixelIndex 0 "(data, messageBitIndex)"] by simp
qed

declare embed_pixels.simps [simp del]

text \<open>Lines 60-81: the embedding starts at pixel 0 with \<open>messageBitIndex = 0\<close>.\<close>

definition embed :: "byte list \<Rightarrow> bits \<Rightarrow> byte list" where
  "embed data bm = fst (embed_pixels bm 0 (data, 0))"

text \<open>
  Lines 36-87 on the pixel data \<open>data\<close> of an image of the given width and height. The
  result is the outcome of the promise (rejected with the error, or resolved) together with
  the final contents of the working buffer \<open>data\<close>, which is what \<open>putImageData\<close> writes
  back and \<open>toDataURL\<close> serialises. What the browser does before line 36 (creating the
  canvas, drawing the image, \<open>getImageData\<close>) and after line 84 is not part of the model;
  \<open>getImageData\<close> returns \<open>4 * width * height\<close> bytes.
\<close>

definition encodeMessage :: "nat \<Rightarrow> nat \<Rightarrow> byte list \<Rightarrow> jsstring \<Rightarrow> (error + unit) \<times> byte list" where
  "encodeMessage width height data message =
     (let bm = binaryMessage message;
          totalPixels = width * height;
          usableChannelsPerPixel = 3;
          totalUsableBits = totalPixels * usableChannelsPerPixel
      in if length bm > totalUsableBits then (Inl CapacityExceeded, data)
         else (Inr (), embed data bm))"

section \<open>decodeMessage\<close>

text \<open>Lines 167-179: the loop \<open>for (i = 0; i < binary.length; i += 8)\<close>, with \<open>text\<close> as
  accumulator.\<close>

function extractText_loop :: "bits \<Rightarrow> nat \<Rightarrow> jsstring \<Rightarrow> jsstring" where
  "extractText_loop binary i text =
     (if i < length binary then
        (let byte = substring binary (int i) (int i + 8) in
         extractText_loop binary (i + 8)
           (if length byte = 8 then text @ [fromCharCode (parseInt2 byte)] else text))
      else text)"
  by pat_completeness auto
termination
  by (relation "measure (\<lambda>(binary, i, text). length binary - i)") auto

declare extractText_loop.simps [simp del]

definition extractTextFromBinary :: "bits \<Rightarrow> jsstring" where
  "extractTextFromBinary binary = extractText_loop binary 0 []"

text \<open>Lines 137-149: the marker test on the text decoded so far; \<open>None\<close> stands for falling
  through to the next iteration.\<close>

definition unframe :: "jsstring \<Rightarrow> jsstring option" where
  "unframe extractedText =
     (if includes_js extractedText START_MARKER \<and> includes_js extractedText END_MARKER then
        (let startIndex = indexOf extractedText START_MARKER + 9;
             endIndex = indexOf extractedText END_MARKER
         in if endIndex > startIndex then Some (substring extractedText startIndex endIndex)
            else None)
      else None)"

text \<open>Line 128: \<open>data[dataIndex] & 0x01\<close>. A read beyond the end of a typed array gives
  \<open>undefined\<close>, and \<open>undefined & 0x01\<close> is 0.\<close>

definition readLSB :: "byte list \<Rightarrow> nat \<Rightarrow> bool" where
  "readLSB data dataIndex = (if dataIndex < length data then data ! dataIndex AND 1 = 1 else False)"

text \<open>Lines 126-151, the loop over the channels of one pixel: \<open>Inl\<close> is the \<open>resolve(message);
  return\<close> of line 146, \<open>Inr\<close> the bit string at the end of the loop.\<close>

function decode_channels :: "byte list \<Rightarrow> nat \<Rightarrow> nat \<Rightarrow> bits \<Rightarrow> jsstring + bits" where
  "decode_channels data pixelIndex channel bm =
     (if channel < 3 then
        (let b = readLSB data (pixelIndex * 4 + channel);
             bm' = bm @ [b]
         in if length bm' mod 8 = 0 \<and> length bm' \<ge> 8 * 9 then
              (case unframe (extractTextFromBinary bm') of
                 Some message \<Rightarrow> Inl message
               | None \<Rightarrow> decode_channels data pixelIndex (channel + 1) bm')
            else decode_channels data pixelIndex (channel + 1) bm')
      else Inr bm)"
  by pat_completeness auto
termination
  by (relation "measure (\<lambda>(data, pixelIndex, channel, bm). 3 - channel)") auto

declare decode_channels.simps [simp del]

text \<open>Line 122: \<open>Math.min(data.length / 4, 100000)\<close> is a real number; the pixel indices
  below it are those below its ceiling.\<close>

definition maxPixels :: "byte list \<Rightarrow> nat" where
  "maxPixels data = min ((length data + 3) div 4) 100000"

text \<open>Lines 124-155, the loop over the pixels; \<open>None\<close> is \<open>resolve(null)\<close>.\<close>

function decode_pixels :: "byte list \<Rightarrow> nat \<Rightarrow> bits \<Rightarrow> jsstring option" where
  "decode_pixels data pixelIndex bm =
     (if pixelIndex < maxPixels data then
        (case decode_channels data pixelIndex 0 bm of
           Inl message \<Rightarrow> Some message
         | Inr bm' \<Rightarrow> decode_pixels data (pixelIndex + 1) bm')
      else None)"
  by pat_completeness auto
termination
  by (relation "measure (\<lambda>(data, pixelIndex, bm). maxPixels data - pixelIndex)") auto

declare decode_pixels.simps [simp del]

definition decodeMessage :: "byte list \<Rightarrow> jsstring option" where
  "decodeMessage data = decode_pixels data 0 []"

section \<open>The scan order, for stating what the decoder reads\<close>

text \<open>The position in scan order of the colour channel stored at byte \<open>i\<close> of the buffer
  (for \<open>i mod 4 < 3\<close>; the bytes with \<open>i mod 4 = 3\<close> are the alpha channels).\<close>

definition bitIndex :: "nat \<Rightarrow> nat" where
  "bitIndex i = 3 * (i div 4) + i mod 4"

text \<open>Byte \<open>i\<close> of the buffer once the bits of \<open>bm\<close> at positions below \<open>k\<close> have been
  written in scan order.\<close>

definition embedded :: "byte list \<Rightarrow> bits \<Rightarrow> nat \<Rightarrow> nat \<Rightarrow> byte" where
  "embedded data bm k i =
     (if i mod 4 < 3 \<and> bitIndex i < k \<and> bitIndex i < length bm
      then (data ! i AND 0xfe) OR (if bm ! bitIndex i then 1 else 0)
      else data ! i)"

text \<open>The least significant bits of the first \<open>k\<close> colour channels in scan order: channel
  \<open>j mod 3\<close> of pixel \<open>j div 3\<close>, alpha skipped.\<close>

definition lsbs :: "byte list \<Rightarrow> nat \<Rightarrow> bits" where
  "lsbs data k = map (\<lambda>j. readLSB data (4 * (j div 3) + j mod 3)) [0..<k]"

text \<open>The test of lines 132-149 once \<open>k\<close> bits have been read.\<close>

definition check :: "byte list \<Rightarrow> nat \<Rightarrow> jsstring option" where
  "check data k =
     (if k mod 8 = 0 \<and> k \<ge> 8 * 9 then unframe (extractTextFromBinary (lsbs data k)) else None)"

text \<open>The first successful test among those after bits \<open>k + 1\<close>, ..., \<open>k + n\<close>.\<close>

fun scan :: "byte list \<Rightarrow> nat \<Rightarrow> nat \<Rightarrow> jsstring option" where
  "scan data k 0 = None"
| "scan data k (Suc n) =
     (case check data (Suc k) of Some message \<Rightarrow> Some message | None \<Rightarrow> scan data (Suc k) n)"

section \<open>The framing as the specification words it\<close>

text \<open>The byte of a character: its code modulo 256.\<close>

definition byte_of_char :: "codeunit \<Rightarrow> byte" where
  "byte_of_char c = of_nat (unat c mod 256)"

text \<open>The eight bits of a byte, most significant first.\<close>

definition bits_msb_first :: "byte \<Rightarrow> bits" where
  "bits_msb_first v = map (\<lambda>i. bit v (7 - i)) [0..<8]"

text \<open>One byte per character of the framed string, eight bits per byte, in character order.\<close>

definition frame_spec :: "jsstring \<Rightarrow> bits" where
  "frame_spec message = concat (map (\<lambda>c. bits_msb_first (byte_of_char c)) (messageWithMarker message))"

text \<open>\<open>p\<close> occurs in \<open>s\<close> at position \<open>k\<close> and at no earlier position.\<close>

definition first_occurrence :: "'a list \<Rightarrow> 'a list \<Rightarrow> nat \<Rightarrow> bool" where
  "first_occurrence p s k =
     (k \<le> length s \<and> prefix p (drop k s) \<and> (\<forall>j < k. \<not> prefix p (drop j s)))"

text \<open>The unframing read position by position: the first \<open><<START>>\<close>, then the first
  \<open><<END>>\<close> in what follows it, and the text between the two when there is any.\<close>

definition unframe_spec :: "jsstring \<Rightarrow> jsstring option" where
  "unframe_spec s =
     (let i = indexOf s START_MARKER in
      if i = -1 then None
      else (let rest = drop (nat i + 9) s; e = indexOf rest END_MARKER in
            if e > 0 then Some (take (nat e) rest) else None))"

text \<open>Strings whose code units all fit one byte.\<close>

definition latin1 :: "jsstring \<Rightarrow> bool" where
  "latin1 s = (\<forall>c \<in> set s. unat c < 256)"

section \<open>Binary digits\<close>

lemma toString2_small: "n < 2 \<Longrightarrow> toString2 n = [odd n]"
  by (simp add: toString2.simps [of n])

lemma toString2_big: "\<not> n < 2 \<Longrightarrow> toString2 n = toString2 (n div 2) @ [odd n]"
  by (simp add: toString2.simps [of n])

lemma length_toString2_le: "n < 2 ^ k \<Longrightarrow> 0 < k \<Longrightarrow> length (toString2 n) \<le> k"
proof (induction k arbitrary: n)
  case 0
  then show ?case by simp
next
  case (Suc k)
  show ?case
  proof (cases "n < 2")
    case True
    then show ?thesis by (simp add: toString2_small)
  next
    case False
    with Suc.prems have k: "0 < k" by (cases k) auto
    from Suc.prems have "n div 2 < 2 ^ k" by simp
    then have "length (toString2 (n div 2)) \<le> k" using k by (rule Suc.IH)
    with False show ?thesis by (simp add: toString2_big)
  qed
qed

lemma length_padStart: "length (padStart n c s) = max n (length s)"
  by (simp add: padStart_def)

lemma parseInt2_snoc: "parseInt2 (bs @ [b]) = 2 * parseInt2 bs + (if b then 1 else 0)"
  by (simp add: parseInt2_def)

lemma parseInt2_toString2: "parseInt2 (toString2 n) = n"
proof (induction n rule: toString2.induct)
  case (1 n)
  show ?case
  proof (cases "n < 2")
    case True
    then have "n = 0 \<or> n = 1" by arith
    then show ?thesis by (auto simp: toString2_small parseInt2_def)
  next
    case False
    with 1 have "parseInt2 (toString2 (n div 2)) = n div 2" by simp
    with False show ?thesis by (auto simp: toString2_big parseInt2_snoc)
  qed
qed

lemma parseInt2_zeros: "parseInt2 (replicate k False @ bs) = parseInt2 bs"
proof -
  have "foldl (\<lambda>acc b. 2 * acc + (if b then 1 else 0)) (0::nat) (replicate k False) = 0"
    by (induction k) simp_all
  then show ?thesis by (simp add: parseInt2_def)
qed

lemma parseInt2_padStart: "parseInt2 (padStart k False (toString2 n)) = n"
  by (simp add: padStart_def parseInt2_zeros parseInt2_toString2)

lemma length_pad8: "n < 256 \<Longrightarrow> length (padStart 8 False (toString2 n)) = 8"
  using length_toString2_le [of n 8] by (simp add: length_padStart)

lemma padStart_msb:
  "n < 2 ^ k \<Longrightarrow> 0 < k \<Longrightarrow> padStart k False (toString2 n) = map (\<lambda>i. odd (n div 2 ^ (k - 1 - i))) [0..<k]"
proof (induction k arbitrary: n)
  case 0
  then show ?case by simp
next
  case (Suc k)
  show ?case
  proof (cases "n < 2")
    case True
    have "map (\<lambda>i. odd (n div 2 ^ (k - i))) [0..<k] = replicate k False"
    proof (rule nth_equalityI)
      show "length (map (\<lambda>i. odd (n div 2 ^ (k - i))) [0..<k]) = length (replicate k False)" by simp
    next
      fix i assume "i < length (map (\<lambda>i. odd (n div 2 ^ (k - i))) [0..<k])"
      then have i: "i < k" by simp
      then have "(2::nat) ^ 1 \<le> 2 ^ (k - i)" by (intro power_increasing) auto
      with True have "n div 2 ^ (k - i) = 0" by simp
      with i show "map (\<lambda>i. odd (n div 2 ^ (k - i))) [0..<k] ! i = replicate k False ! i" by simp
    qed
    then show ?thesis using True by (simp add: toString2_small padStart_def)
  next
    case False
    with Suc.prems have k: "0 < k" by (cases k) auto
    from Suc.prems have "n div 2 < 2 ^ k" by simp
    then have IH: "padStart k False (toString2 (n div 2)) = map (\<lambda>i. odd (n div 2 div 2 ^ (k - 1 - i))) [0..<k]" using k by (rule Suc.IH)
    have len: "length (toString2 (n div 2)) \<le> k" using \<open>n div 2 < 2 ^ k\<close> k by (rule length_toString2_le)
    have aux: "n div 2 div 2 ^ (k - Suc x) = n div 2 ^ (k - x)" if "x < k" for x
    proof -
      from that have "k - x = Suc (k - Suc x)" by simp
      then show ?thesis by (simp add: div_mult2_eq)
    qed
    have "padStart (Suc k) False (toString2 n) = padStart k False (toString2 (n div 2)) @ [odd n]"
      using False len by (simp add: toString2_big padStart_def Suc_diff_le)
    also have "\<dots> = map (\<lambda>i. odd (n div 2 ^ (Suc k - 1 - i))) [0..<Suc k]"
      unfolding IH by (simp add: aux)
    finally show ?thesis .
  qed
qed

section \<open>Markers and framed bit strings\<close>

lemma START_MARKER_eq: "START_MARKER = [60, 60, 83, 84, 65, 82, 84, 62, 62]"
  by (simp add: START_MARKER_def js_def)

lemma END_MARKER_eq: "END_MARKER = [60, 60, 69, 78, 68, 62, 62]"
  by (simp add: END_MARKER_def js_def)

lemma length_START_MARKER [simp]: "length START_MARKER = 9"
  by (simp add: START_MARKER_eq)

lemma length_END_MARKER [simp]: "length END_MARKER = 7"
  by (simp add: END_MARKER_eq)

lemma latin1_markers: "latin1 START_MARKER" "latin1 END_MARKER"
  by (simp_all add: latin1_def START_MARKER_eq END_MARKER_eq)

lemma latin1_append [simp]: "latin1 (a @ b) \<longleftrightarrow> latin1 a \<and> latin1 b"
  by (auto simp: latin1_def)

lemma latin1_messageWithMarker: "latin1 (messageWithMarker m) \<longleftrightarrow> latin1 m"
  by (simp add: messageWithMarker_def latin1_markers)

lemma toBinary_append: "toBinary (a @ b) = toBinary a @ toBinary b"
  by (induction a) simp_all

lemma length_toBinary: "latin1 cs \<Longrightarrow> length (toBinary cs) = 8 * length cs"
  by (induction cs) (simp_all add: latin1_def length_pad8)

lemma length_toBinary_ge: "8 * length cs \<le> length (toBinary cs)"
  by (induction cs) (simp_all add: length_padStart)

lemma length_binaryMessage: "latin1 m \<Longrightarrow> length (binaryMessage m) = 8 * (length m + 16)"
  by (simp add: binaryMessage_def length_toBinary latin1_messageWithMarker) (simp add: messageWithMarker_def)

lemma length_binaryMessage_ge: "8 * (length m + 16) \<le> length (binaryMessage m)"
  using length_toBinary_ge [of "messageWithMarker m"]
  by (simp add: binaryMessage_def messageWithMarker_def)

lemma pad8_spec:
  assumes "unat c < 256"
  shows "padStart 8 False (toString2 (unat c)) = bits_msb_first (byte_of_char c)"
proof -
  have "padStart 8 False (toString2 (unat c)) = map (\<lambda>i. odd (unat c div 2 ^ (8 - 1 - i))) [0..<8]"
    using assms by (intro padStart_msb) simp_all
  also have "\<dots> = map (\<lambda>i. bit (byte_of_char c) (7 - i)) [0..<8]"
  proof (rule map_cong [OF refl])
    fix i assume "i \<in> set [0..<8::nat]"
    then have "7 - i < 8" by simp
    moreover have "byte_of_char c = ucast c"
      using assms by (simp add: byte_of_char_def)
    moreover have "bit (unat c) (7 - i) = odd (unat c div 2 ^ (7 - i))"
      by (simp add: bit_nat_def)
    ultimately show "odd (unat c div 2 ^ (8 - 1 - i)) = bit (byte_of_char c) (7 - i)"
      by (simp add: bit_ucast_iff bit_unsigned_iff)
  qed
  finally show ?thesis by (simp add: bits_msb_first_def)
qed

lemma toBinary_spec: "latin1 cs \<Longrightarrow> toBinary cs = concat (map (\<lambda>c. bits_msb_first (byte_of_char c)) cs)"
  by (induction cs) (simp_all add: latin1_def pad8_spec)

lemma length_frame_spec: "length (frame_spec m) = 8 * (length m + 16)"
proof -
  have "length (concat (map (\<lambda>c. bits_msb_first (byte_of_char c)) cs)) = 8 * length cs" for cs
    by (induction cs) (simp_all add: bits_msb_first_def)
  then show ?thesis by (simp add: frame_spec_def messageWithMarker_def)
qed

lemma toString2_256: "toString2 256 = [True, False, False, False, False, False, False, False, False]"
  by (simp add: toString2.simps [of 256] toString2.simps [of 128] toString2.simps [of 64] toString2.simps [of 32]
     toString2.simps [of 16] toString2.simps [of 8] toString2.simps [of 4] toString2.simps [of 2] toString2.simps [of "Suc 0"])

lemma length_binaryMessage_256: "length (binaryMessage [0x100]) = 137"
  by (simp add: binaryMessage_def messageWithMarker_def toBinary_append length_toBinary latin1_markers
      toString2_256 padStart_def)

lemma latin1_js: "latin1 (js s)"
proof -
  have "unat (word_of_nat (of_char c) :: codeunit) < 256" for c :: char
  proof -
    have "(of_char c :: nat) mod 256 < 256" by (rule mod_less_divisor) simp
    then have "of_char c < (256::nat)" by (simp only: of_char_mod_256)
    moreover from this have "(of_char c :: nat) < 65536" by linarith
    then have "(of_char c :: nat) mod 65536 = of_char c" by (rule mod_less)
    ultimately show ?thesis by (simp add: unat_of_nat)
  qed
  then show ?thesis by (simp add: latin1_def js_def)
qed

lemma length_js [simp]: "length (js s) = length s"
  by (simp add: js_def)

section \<open>Searching a string\<close>

lemma indexOf_from_cases:
  "(indexOf_from s p i = -1 \<and> (\<forall>k \<le> length s. \<not> prefix p (drop k s))) \<or>
   (\<exists>k \<le> length s. indexOf_from s p i = int (i + k) \<and> prefix p (drop k s) \<and>
      (\<forall>j < k. \<not> prefix p (drop j s)))"
proof (induction s arbitrary: i)
  case Nil
  then show ?case by auto
next
  case (Cons x xs)
  show ?case
  proof (cases "prefix p (x # xs)")
    case True
    then have "indexOf_from (x # xs) p i = int (i + 0) \<and> prefix p (drop 0 (x # xs)) \<and>
      (\<forall>j < 0. \<not> prefix p (drop j (x # xs)))" by simp
    then show ?thesis by blast
  next
    case False
    from Cons.IH [of "i + 1"] show ?thesis
    proof
      assume a: "indexOf_from xs p (i + 1) = -1 \<and> (\<forall>k \<le> length xs. \<not> prefix p (drop k xs))"
      have "\<not> prefix p (drop k (x # xs))" if "k \<le> length (x # xs)" for k
        using that a False by (cases k) auto
      with a False show ?thesis by simp
    next
      assume "\<exists>k \<le> length xs. indexOf_from xs p (i + 1) = int (i + 1 + k) \<and> prefix p (drop k xs) \<and>
        (\<forall>j < k. \<not> prefix p (drop j xs))"
      then obtain k where k: "k \<le> length xs" "indexOf_from xs p (i + 1) = int (i + 1 + k)"
        "prefix p (drop k xs)" "\<forall>j < k. \<not> prefix p (drop j xs)" by blast
      have "\<not> prefix p (drop j (x # xs))" if "j < Suc k" for j
        using that k(4) False by (cases j) auto
      with k False have "Suc k \<le> length (x # xs) \<and> indexOf_from (x # xs) p i = int (i + Suc k) \<and>
        prefix p (drop (Suc k) (x # xs)) \<and> (\<forall>j < Suc k. \<not> prefix p (drop j (x # xs)))"
        by simp
      then show ?thesis by blast
    qed
  qed
qed

lemma indexOf_first:
  assumes "k \<le> length s" "prefix p (drop k s)" "\<forall>j < k. \<not> prefix p (drop j s)"
  shows "indexOf s p = int k"
proof -
  from indexOf_from_cases [of s p 0] assms(1,2)
  obtain k' where k': "k' \<le> length s" "indexOf s p = int k'" "prefix p (drop k' s)"
    "\<forall>j < k'. \<not> prefix p (drop j s)"
    unfolding indexOf_def by auto
  from k'(3,4) assms(2,3) have "k' = k" by (meson linorder_neqE_nat)
  with k'(2) show ?thesis by simp
qed

lemma includes_js_iff:
  "includes_js s p \<longleftrightarrow> (\<exists>k \<le> length s. prefix p (drop k s))"
  using indexOf_from_cases [of s p 0] unfolding includes_js_def indexOf_def by auto

lemma indexOf_found:
  assumes "includes_js s p"
  obtains k where "indexOf s p = int k" "k \<le> length s" "prefix p (drop k s)"
    "\<forall>j < k. \<not> prefix p (drop j s)"
  using indexOf_from_cases [of s p 0] assms unfolding includes_js_def indexOf_def by auto

lemma prefix_drop_length:
  "prefix p (drop k s) \<Longrightarrow> k \<le> length s \<Longrightarrow> k + length p \<le> length s"
  by (auto simp: prefix_def dest!: arg_cong [where f = length])

section \<open>Decoding bit strings\<close>

lemma substring_chunk: "substring bs (int i) (int i + 8) = take 8 (drop i bs)"
  by (simp add: substring_def Let_def nat_add_distrib)

lemma substring_nat: "a \<le> b \<Longrightarrow> substring s (int a) (int b) = take (b - a) (drop a s)"
  by (simp add: substring_def Let_def)

lemma extractText_loop_shift:
  "extractText_loop binary i acc = acc @ extractText_loop (drop i binary) 0 []"
proof (induction "length binary - i" arbitrary: binary i acc rule: less_induct)
  case less
  show ?case
  proof (cases "i < length binary")
    case False
    then show ?thesis
      by (simp add: extractText_loop.simps [of binary i] extractText_loop.simps [of "[]" 0])
  next
    case True
    define c where "c = (if length (take 8 (drop i binary)) = 8
      then [fromCharCode (parseInt2 (take 8 (drop i binary)))] else [])"
    have l: "extractText_loop binary i acc = extractText_loop binary (i + 8) (acc @ c)"
      using True by (simp add: extractText_loop.simps [of binary i] substring_chunk c_def Let_def)
    have r: "extractText_loop (drop i binary) 0 [] = extractText_loop (drop i binary) 8 c"
      using True substring_chunk [of "drop i binary" 0]
      by (simp add: extractText_loop.simps [of "drop i binary" 0] c_def Let_def)
    have "extractText_loop binary (i + 8) (acc @ c)
        = (acc @ c) @ extractText_loop (drop (i + 8) binary) 0 []"
      using True by (intro less) simp
    moreover have "extractText_loop (drop i binary) 8 c
        = c @ extractText_loop (drop 8 (drop i binary)) 0 []"
      using True by (intro less) simp
    ultimately show ?thesis by (simp add: l r add.commute)
  qed
qed

lemma extractTextFromBinary_Nil [simp]: "extractTextFromBinary [] = []"
  by (simp add: extractTextFromBinary_def extractText_loop.simps [of "[]" 0])

lemma extractTextFromBinary_short: "length bs < 8 \<Longrightarrow> extractTextFromBinary bs = []"
  using substring_chunk [of bs 0]
  by (cases "bs = []")
    (simp_all add: extractTextFromBinary_def extractText_loop.simps [of bs 0]
      extractText_loop.simps [of bs 8] extractText_loop.simps [of "[]" 0] Let_def)

lemma extractTextFromBinary_chunk:
  assumes "length b8 = 8"
  shows "extractTextFromBinary (b8 @ rest) = fromCharCode (parseInt2 b8) # extractTextFromBinary rest"
proof -
  have "extractText_loop (b8 @ rest) 0 [] = extractText_loop (b8 @ rest) 8 [fromCharCode (parseInt2 b8)]"
    using assms substring_chunk [of "b8 @ rest" 0]
    by (simp add: extractText_loop.simps [of "b8 @ rest" 0] Let_def)
  also have "\<dots> = [fromCharCode (parseInt2 b8)] @ extractText_loop (drop 8 (b8 @ rest)) 0 []"
    by (rule extractText_loop_shift)
  finally show ?thesis using assms by (simp add: extractTextFromBinary_def)
qed

lemma length_extractTextFromBinary: "length (extractTextFromBinary bs) = length bs div 8"
proof (induction "length bs" arbitrary: bs rule: less_induct)
  case less
  show ?case
  proof (cases "length bs < 8")
    case True
    then show ?thesis by (simp add: extractTextFromBinary_short)
  next
    case False
    then have "length (take 8 bs) = 8" by simp
    then have "extractTextFromBinary (take 8 bs @ drop 8 bs)
        = fromCharCode (parseInt2 (take 8 bs)) # extractTextFromBinary (drop 8 bs)"
      by (rule extractTextFromBinary_chunk)
    moreover have "length (extractTextFromBinary (drop 8 bs)) = length (drop 8 bs) div 8"
      using False by (intro less) simp
    ultimately show ?thesis using False by (simp add: le_div_geq)
  qed
qed

lemma fromCharCode_pad8: "fromCharCode (parseInt2 (padStart 8 False (toString2 (unat c)))) = c"
  by (simp add: parseInt2_padStart fromCharCode_def)

lemma extractTextFromBinary_toBinary:
  "latin1 cs \<Longrightarrow> extractTextFromBinary (toBinary cs @ rest) = cs @ extractTextFromBinary rest"
proof (induction cs)
  case Nil
  then show ?case by simp
next
  case (Cons c cs)
  then have "length (padStart 8 False (toString2 (unat c))) = 8" "latin1 cs"
    by (simp_all add: latin1_def length_pad8)
  with Cons.IH show ?case
    by (simp add: extractTextFromBinary_chunk fromCharCode_pad8)
qed

lemma take_toBinary: "latin1 cs \<Longrightarrow> take (8 * k) (toBinary cs) = toBinary (take k cs)"
proof (induction cs arbitrary: k)
  case Nil
  then show ?case by simp
next
  case (Cons c cs)
  then have l: "length (padStart 8 False (toString2 (unat c))) = 8" and cs: "latin1 cs"
    by (simp_all add: latin1_def length_pad8)
  show ?case
  proof (cases k)
    case 0
    then show ?thesis by simp
  next
    case (Suc k')
    with Cons.IH [OF cs, of k'] l show ?thesis by simp
  qed
qed

section \<open>The decoding loops\<close>

lemma lsbs_Suc: "lsbs data (Suc k) = lsbs data k @ [readLSB data (4 * (k div 3) + k mod 3)]"
  by (simp add: lsbs_def)

lemma length_lsbs [simp]: "length (lsbs data k) = k"
  by (simp add: lsbs_def)

lemma decode_channels_scan:
  "channel \<le> 3 \<Longrightarrow>
   decode_channels data pixelIndex channel (lsbs data (3 * pixelIndex + channel)) =
     (case scan data (3 * pixelIndex + channel) (3 - channel) of
        Some message \<Rightarrow> Inl message
      | None \<Rightarrow> Inr (lsbs data (3 * pixelIndex + 3)))"
proof (induction "3 - channel" arbitrary: channel)
  case 0
  then have "channel = 3" by simp
  then show ?case by (simp add: decode_channels.simps [of data pixelIndex 3])
next
  case (Suc n)
  then have c: "channel < 3" and n: "3 - channel = Suc n" "n = 3 - (channel + 1)" by simp_all
  let ?k = "3 * pixelIndex + channel"
  have idx: "4 * (?k div 3) + ?k mod 3 = pixelIndex * 4 + channel"
    using c by simp
  have bm': "lsbs data ?k @ [readLSB data (pixelIndex * 4 + channel)] = lsbs data (Suc ?k)"
    by (simp only: lsbs_Suc idx)
  have IH: "decode_channels data pixelIndex (Suc channel) (lsbs data (Suc ?k)) =
     (case scan data (Suc ?k) n of
        Some message \<Rightarrow> Inl message
      | None \<Rightarrow> Inr (lsbs data (3 * pixelIndex + 3)))"
    using Suc(1) [of "channel + 1"] c n by simp
  show ?case
    using c
    by (simp add: decode_channels.simps [of data pixelIndex channel] Let_def bm' IH n(1)
        check_def split: option.splits)
qed

lemma scan_add:
  "scan data k (a + b) =
     (case scan data k a of Some message \<Rightarrow> Some message | None \<Rightarrow> scan data (k + a) b)"
  by (induction a arbitrary: k) (simp_all split: option.splits)

lemma decode_pixels_scan:
  "decode_pixels data pixelIndex (lsbs data (3 * pixelIndex)) =
     scan data (3 * pixelIndex) (3 * (maxPixels data - pixelIndex))"
proof (induction "maxPixels data - pixelIndex" arbitrary: pixelIndex)
  case 0
  then show ?case by (simp add: decode_pixels.simps [of data pixelIndex])
next
  case (Suc n)
  then have lt: "pixelIndex < maxPixels data" and n: "n = maxPixels data - (pixelIndex + 1)"
    by simp_all
  have split: "3 * (maxPixels data - pixelIndex) = 3 + 3 * (maxPixels data - (pixelIndex + 1))"
    using lt by simp
  have ch: "decode_channels data pixelIndex 0 (lsbs data (3 * pixelIndex)) =
     (case scan data (3 * pixelIndex) 3 of
        Some message \<Rightarrow> Inl message
      | None \<Rightarrow> Inr (lsbs data (3 * pixelIndex + 3)))"
    using decode_channels_scan [of 0 data pixelIndex] by simp
  have IH: "decode_pixels data (Suc pixelIndex) (lsbs data (3 * pixelIndex + 3)) =
     scan data (3 * pixelIndex + 3) (3 * (maxPixels data - Suc pixelIndex))"
    using Suc(1) [OF n] by (simp add: algebra_simps)
  show ?case
    unfolding split scan_add
    using lt by (simp add: decode_pixels.simps [of data pixelIndex] ch IH split: option.splits)
qed

lemma decodeMessage_scan: "decodeMessage data = scan data 0 (3 * maxPixels data)"
  using decode_pixels_scan [of data 0] by (simp add: decodeMessage_def lsbs_def)

lemma scan_None_iff:
  "scan data k n = None \<longleftrightarrow> (\<forall>j. k < j \<and> j \<le> k + n \<longrightarrow> check data j = None)"
proof (induction n arbitrary: k)
  case 0
  show ?case by auto
next
  case (Suc n)
  show ?case
  proof (cases "check data (Suc k)")
    case (Some m)
    then show ?thesis by force
  next
    case None
    have "(\<forall>j. k < j \<and> j \<le> k + Suc n \<longrightarrow> check data j = None) \<longleftrightarrow>
          (\<forall>j. Suc k < j \<and> j \<le> Suc k + n \<longrightarrow> check data j = None)"
      using None by (metis Suc_lessI Suc_lessD add_Suc add_Suc_right)
    with None Suc.IH [of "Suc k"] show ?thesis by simp
  qed
qed

lemma scan_Some_iff:
  "scan data k n = Some m \<longleftrightarrow>
     (\<exists>j. k < j \<and> j \<le> k + n \<and> check data j = Some m \<and> (\<forall>i. k < i \<and> i < j \<longrightarrow> check data i = None))"
proof (induction n arbitrary: k)
  case 0
  then show ?case by simp
next
  case (Suc n)
  show ?case
  proof (cases "check data (Suc k)")
    case (Some m')
    have "(\<exists>j. k < j \<and> j \<le> k + Suc n \<and> check data j = Some m \<and>
             (\<forall>i. k < i \<and> i < j \<longrightarrow> check data i = None)) \<longleftrightarrow> m' = m"
    proof
      assume "\<exists>j. k < j \<and> j \<le> k + Suc n \<and> check data j = Some m \<and>
             (\<forall>i. k < i \<and> i < j \<longrightarrow> check data i = None)"
      then obtain j where j: "k < j" "check data j = Some m"
        "\<forall>i. k < i \<and> i < j \<longrightarrow> check data i = None" by blast
      have "j = Suc k"
      proof (rule ccontr)
        assume "j \<noteq> Suc k"
        with j(1) have "k < Suc k \<and> Suc k < j" by simp
        with j(3) Some show False by auto
      qed
      with j(2) Some show "m' = m" by simp
    next
      assume "m' = m"
      moreover have "\<not> (k < i \<and> i < Suc k)" for i by arith
      ultimately have "k < Suc k \<and> Suc k \<le> k + Suc n \<and> check data (Suc k) = Some m \<and>
             (\<forall>i. k < i \<and> i < Suc k \<longrightarrow> check data i = None)" using Some by auto
      then show "\<exists>j. k < j \<and> j \<le> k + Suc n \<and> check data j = Some m \<and>
             (\<forall>i. k < i \<and> i < j \<longrightarrow> check data i = None)" by blast
    qed
    with Some show ?thesis by simp
  next
    case None
    have "(\<exists>j. k < j \<and> j \<le> k + Suc n \<and> check data j = Some m \<and>
             (\<forall>i. k < i \<and> i < j \<longrightarrow> check data i = None)) \<longleftrightarrow>
          (\<exists>j. Suc k < j \<and> j \<le> Suc k + n \<and> check data j = Some m \<and>
             (\<forall>i. Suc k < i \<and> i < j \<longrightarrow> check data i = None))" (is "?L \<longleftrightarrow> ?R")
    proof
      assume ?L
      then obtain j where j: "k < j" "j \<le> k + Suc n" "check data j = Some m"
        "\<forall>i. k < i \<and> i < j \<longrightarrow> check data i = None" by blast
      from j(1,3) None have "Suc k < j" by (cases "j = Suc k") auto
      with j show ?R by auto
    next
      assume ?R
      then obtain j where j: "Suc k < j" "j \<le> Suc k + n" "check data j = Some m"
        "\<forall>i. Suc k < i \<and> i < j \<longrightarrow> check data i = None" by blast
      have "check data i = None" if "k < i \<and> i < j" for i
        using that j(4) None by (cases "i = Suc k") auto
      then have none: "\<forall>i. k < i \<and> i < j \<longrightarrow> check data i = None" by blast
      from j(1,2) have "k < j" "j \<le> k + Suc n" by simp_all
      with j(3) none show ?L by blast
    qed
    with None Suc.IH [of "Suc k"] show ?thesis by simp
  qed
qed

section \<open>The embedding loop\<close>

lemma length_writeLSB [simp]: "length (writeLSB data i b) = length data"
  by (simp add: writeLSB_def)

lemma nth_writeLSB:
  "i < length data \<Longrightarrow>
   writeLSB data j b ! i = (if i = j then (data ! i AND 0xfe) OR (if b then 1 else 0) else data ! i)"
  by (simp add: writeLSB_def)

lemma embed_channels_spec:
  assumes "channel \<le> 3" "embed_channels bm p channel (data, k) = (data', k')"
  shows "length data' = length data \<and>
         k' = k + min (3 - channel) (length bm - k) \<and>
         (\<forall>i < length data. data' ! i =
            (if 4 * p + channel \<le> i \<and> i < 4 * p + 3 \<and> k + (i - (4 * p + channel)) < length bm
             then (data ! i AND 0xfe) OR (if bm ! (k + (i - (4 * p + channel))) then 1 else 0)
             else data ! i))"
  using assms
proof (induction "3 - channel" arbitrary: channel data k)
  case 0
  then have "channel = 3" by simp
  with 0 show ?case by (auto simp: embed_channels.simps [of bm p 3])
next
  case (Suc n)
  then have c: "channel < 3" by simp
  show ?case
  proof (cases "k < length bm")
    case False
    with c Suc.prems(2) have "data' = data" "k' = k"
      by (simp_all add: embed_channels.simps [of bm p channel])
    with False show ?thesis by simp
  next
    case True
    define data1 where "data1 = writeLSB data (p * 4 + channel) (bm ! k)"
    from True c Suc.prems(2)
    have rec: "embed_channels bm p (Suc channel) (data1, Suc k) = (data', k')"
      by (simp add: embed_channels.simps [of bm p channel] data1_def)
    have n: "n = 3 - Suc channel" "Suc channel \<le> 3" using Suc(2) c by simp_all
    note IH = Suc(1) [OF n rec]
    have len: "length data' = length data" using IH by (simp add: data1_def)
    have k': "k' = k + min (3 - channel) (length bm - k)" using IH True c by simp
    have nth: "data' ! i =
            (if 4 * p + channel \<le> i \<and> i < 4 * p + 3 \<and> k + (i - (4 * p + channel)) < length bm
             then (data ! i AND 0xfe) OR (if bm ! (k + (i - (4 * p + channel))) then 1 else 0)
             else data ! i)" if i: "i < length data" for i
    proof -
      from i have i1: "i < length data1" by (simp add: data1_def)
      from IH i1 have d': "data' ! i =
            (if 4 * p + Suc channel \<le> i \<and> i < 4 * p + 3 \<and> Suc k + (i - (4 * p + Suc channel)) < length bm
             then (data1 ! i AND 0xfe) OR (if bm ! (Suc k + (i - (4 * p + Suc channel))) then 1 else 0)
             else data1 ! i)" by blast
      have d1: "data1 ! i = (if i = p * 4 + channel then (data ! i AND 0xfe) OR (if bm ! k then 1 else 0) else data ! i)"
        using i by (simp add: data1_def nth_writeLSB)
      consider "i < 4 * p + channel" | "i = 4 * p + channel" | "4 * p + Suc channel \<le> i"
        by linarith
      then show ?thesis
      proof cases
        case 1
        then show ?thesis using d' d1 by simp
      next
        case 2
        then show ?thesis using d' d1 True c by simp
      next
        case 3
        then have "Suc k + (i - (4 * p + Suc channel)) = k + (i - (4 * p + channel))" by simp
        with 3 show ?thesis using d' d1 by simp
      qed
    qed
    from len k' nth show ?thesis by blast
  qed
qed

lemma bitIndex_before: "i < 4 * p \<Longrightarrow> i mod 4 < 3 \<Longrightarrow> bitIndex i < 3 * p"
proof -
  assume a: "i < 4 * p" "i mod 4 < 3"
  then have "i div 4 < p" by simp
  then have "3 * (i div 4) + 3 \<le> 3 * p" by simp
  with a(2) show ?thesis unfolding bitIndex_def by linarith
qed

lemma bitIndex_within:
  "4 * p \<le> i \<Longrightarrow> i < 4 * p + 3 \<Longrightarrow> i mod 4 < 3 \<and> bitIndex i = 3 * p + (i - 4 * p)"
proof -
  assume a: "4 * p \<le> i" "i < 4 * p + 3"
  define c where "c = i - 4 * p"
  with a have i: "i = c + p * 4" and c: "c < 3" by simp_all
  have "i div 4 = p" "i mod 4 = c" unfolding i using c by simp_all
  then show ?thesis using c by (simp add: bitIndex_def c_def)
qed

lemma bitIndex_after: "4 * p + 3 \<le> i \<Longrightarrow> i mod 4 < 3 \<Longrightarrow> 3 * p + 3 \<le> bitIndex i"
proof -
  assume a: "4 * p + 3 \<le> i" "i mod 4 < 3"
  have "p + 1 \<le> i div 4"
  proof (rule ccontr)
    assume "\<not> p + 1 \<le> i div 4"
    then have "i div 4 \<le> p" by simp
    then have "4 * (i div 4) \<le> 4 * p" by simp
    moreover have "i = 4 * (i div 4) + i mod 4" by simp
    ultimately show False using a by linarith
  qed
  then have "3 * p + 3 \<le> 3 * (i div 4)" by simp
  then show ?thesis unfolding bitIndex_def by linarith
qed

lemma embedded_before:
  assumes "i < 4 * p" "3 * p \<le> k"
  shows "embedded data bm (3 * p) i = embedded data bm k i"
proof (cases "i mod 4 < 3")
  case True
  with assms(1) have "bitIndex i < 3 * p" by (rule bitIndex_before)
  moreover from this assms(2) have "bitIndex i < k" by simp
  ultimately show ?thesis by (simp only: embedded_def simp_thms)
next
  case False
  then show ?thesis by (simp only: embedded_def simp_thms)
qed

lemma embedded_after:
  assumes "4 * p + 3 \<le> i" "k \<le> 3 * p + 3"
  shows "embedded data bm k i = data ! i"
proof (cases "i mod 4 < 3")
  case True
  with assms(1) have "3 * p + 3 \<le> bitIndex i" by (rule bitIndex_after)
  with assms(2) have "\<not> bitIndex i < k" by simp
  then show ?thesis by (simp only: embedded_def simp_thms if_False)
next
  case False
  then show ?thesis by (simp only: embedded_def simp_thms if_False)
qed

lemma embedded_within:
  assumes "4 * p \<le> i" "i < 4 * p + 3"
  shows "embedded data bm (3 * p) i = data ! i"
    and "embedded data bm (3 * p + 3) i =
           (if 4 * p \<le> i \<and> i < 4 * p + 3 \<and> 3 * p + (i - 4 * p) < length bm
            then (data ! i AND 0xfe) OR (if bm ! (3 * p + (i - 4 * p)) then 1 else 0)
            else data ! i)"
proof -
  from bitIndex_within [OF assms]
  have b1: "i mod 4 < 3" and b2: "bitIndex i = 3 * p + (i - 4 * p)" by blast+
  have a1: "\<not> 3 * p + (i - 4 * p) < 3 * p" by simp
  have a2: "3 * p + (i - 4 * p) < 3 * p + 3" using assms by arith
  show "embedded data bm (3 * p) i = data ! i"
    by (simp only: embedded_def b1 b2 a1 simp_thms if_False)
  show "embedded data bm (3 * p + 3) i =
           (if 4 * p \<le> i \<and> i < 4 * p + 3 \<and> 3 * p + (i - 4 * p) < length bm
            then (data ! i AND 0xfe) OR (if bm ! (3 * p + (i - 4 * p)) then 1 else 0)
            else data ! i)"
    by (simp only: embedded_def b1 b2 a2 assms simp_thms)
qed

lemma embedded_all: "length bm \<le> k \<Longrightarrow> embedded data bm k i = embedded data bm (length bm) i"
proof -
  assume "length bm \<le> k"
  then have "bitIndex i < length bm \<Longrightarrow> bitIndex i < k" by simp
  then have "(bitIndex i < k \<and> bitIndex i < length bm) \<longleftrightarrow>
             (bitIndex i < length bm \<and> bitIndex i < length bm)" by blast
  then show ?thesis by (simp only: embedded_def)
qed

lemma embed_channels_first:
  assumes "embed_channels bm p 0 (data, 3 * p) = (d1, k1)"
  shows "length d1 = length data"
    and "k1 = 3 * p + min 3 (length bm - 3 * p)"
    and "i < length data \<Longrightarrow> d1 ! i =
            (if 4 * p \<le> i \<and> i < 4 * p + 3 \<and> 3 * p + (i - 4 * p) < length bm
             then (data ! i AND 0xfe) OR (if bm ! (3 * p + (i - 4 * p)) then 1 else 0)
             else data ! i)"
proof -
  have spec1: "length d1 = length data \<and>
         k1 = 3 * p + min (3 - 0) (length bm - 3 * p) \<and>
         (\<forall>i < length data. d1 ! i =
            (if 4 * p + 0 \<le> i \<and> i < 4 * p + 3 \<and> 3 * p + (i - (4 * p + 0)) < length bm
             then (data ! i AND 0xfe) OR (if bm ! (3 * p + (i - (4 * p + 0))) then 1 else 0)
             else data ! i))"
    by (rule embed_channels_spec [OF _ assms]) simp
  from spec1 show "length d1 = length data" by (rule conjunct1)
  from spec1 [THEN conjunct2, THEN conjunct1]
  show "k1 = 3 * p + min 3 (length bm - 3 * p)" by (simp only: diff_zero)
  show "d1 ! i =
            (if 4 * p \<le> i \<and> i < 4 * p + 3 \<and> 3 * p + (i - 4 * p) < length bm
             then (data ! i AND 0xfe) OR (if bm ! (3 * p + (i - 4 * p)) then 1 else 0)
             else data ! i)" if "i < length data"
    using spec1 [THEN conjunct2, THEN conjunct2, rule_format, OF that]
    by (simp only: add_0_right)
qed

lemma embed_pixels_spec:
  assumes "length data = length data0"
    and "\<forall>i < length data0. data ! i = embedded data0 bm (3 * p) i"
    and "embed_pixels bm p (data, 3 * p) = (data', k')"
  shows "length data' = length data0 \<and>
         (\<forall>i < length data0. data' ! i = embedded data0 bm (length bm) i)"
  using assms
proof (induction "length data0 - 4 * p" arbitrary: p data rule: less_induct)
  case less
  note len = less.prems(1) and inv = less.prems(2) and run = less.prems(3)
  show ?case
  proof (cases "4 * p < length data")
    case False
    with run have res: "data' = data" by (simp add: embed_pixels.simps [of bm p data])
    have "data ! i = embedded data0 bm (length bm) i" if i: "i < length data0" for i
    proof -
      from i False len have lt: "i < 4 * p" by simp
      have "embedded data0 bm (3 * p) i = embedded data0 bm (max (3 * p) (length bm)) i"
        using lt by (rule embedded_before) simp
      also have "\<dots> = embedded data0 bm (length bm) i"
        by (rule embedded_all) simp
      finally show ?thesis using inv i by simp
    qed
    with res len show ?thesis by simp
  next
    case True
    obtain d1 k1 where inner: "embed_channels bm p 0 (data, 3 * p) = (d1, k1)"
      by (cases "embed_channels bm p 0 (data, 3 * p)")
    note len1 = embed_channels_first(1) [OF inner]
      and k1 = embed_channels_first(2) [OF inner]
      and nth1 = embed_channels_first(3) [OF inner]
    have inv1: "d1 ! i = embedded data0 bm (3 * p + 3) i" if i: "i < length data0" for i
    proof -
      from i len have i': "i < length data" by simp
      from inv i have invi: "data ! i = embedded data0 bm (3 * p) i" by blast
      consider "i < 4 * p" | "4 * p \<le> i" "i < 4 * p + 3" | "4 * p + 3 \<le> i" by linarith
      then show ?thesis
      proof cases
        case 1
        then have "embedded data0 bm (3 * p) i = embedded data0 bm (3 * p + 3) i"
          by (rule embedded_before) simp
        moreover from 1 have "\<not> (4 * p \<le> i \<and> i < 4 * p + 3 \<and> 3 * p + (i - 4 * p) < length bm)"
          by simp
        then have "d1 ! i = data ! i" using nth1 [OF i'] by (simp only: if_False)
        ultimately show ?thesis using invi by simp
      next
        case 2
        from embedded_within(1) [OF 2] invi have d: "data ! i = data0 ! i" by simp
        from nth1 [OF i'] show ?thesis by (simp only: embedded_within(2) [OF 2] d)
      next
        case 3
        then have "embedded data0 bm (3 * p) i = data0 ! i" "embedded data0 bm (3 * p + 3) i = data0 ! i"
          by (simp_all add: embedded_after)
        moreover from 3 have "\<not> (4 * p \<le> i \<and> i < 4 * p + 3 \<and> 3 * p + (i - 4 * p) < length bm)"
          by simp
        then have "d1 ! i = data ! i" using nth1 [OF i'] by (simp only: if_False)
        ultimately show ?thesis using invi by simp
      qed
    qed
    show ?thesis
    proof (cases "k1 \<ge> length bm")
      case fin: True
      with True run inner have res: "data' = d1"
        by (simp add: embed_pixels.simps [of bm p data])
      from fin k1 have "length bm \<le> 3 * p + 3" by simp
      then have "embedded data0 bm (3 * p + 3) i = embedded data0 bm (length bm) i" for i
        by (rule embedded_all)
      with inv1 res len1 len show ?thesis by simp
    next
      case cont: False
      with True run inner have rec: "embed_pixels bm (p + 1) (d1, k1) = (data', k')"
        by (simp add: embed_pixels.simps [of bm p data])
      from cont k1 have k1': "k1 = 3 * (p + 1)" by simp
      show ?thesis
      proof (rule less.hyps [of "p + 1" d1])
        show "length data0 - 4 * (p + 1) < length data0 - 4 * p" using True len by simp
        show "length d1 = length data0" using len1 len by simp
        have "3 * (p + 1) = 3 * p + 3" by simp
        then show "\<forall>i<length data0. d1 ! i = embedded data0 bm (3 * (p + 1)) i"
          using inv1 by (simp only:) blast
        show "embed_pixels bm (p + 1) (d1, 3 * (p + 1)) = (data', k')"
          using rec k1' by simp
      qed
    qed
  qed
qed

lemma embedded_0: "embedded data bm 0 i = data ! i"
  by (simp add: embedded_def)

lemma embed_nth:
  "length (embed data bm) = length data \<and>
   (\<forall>i < length data. embed data bm ! i = embedded data bm (length bm) i)"
proof -
  obtain data' k' where run: "embed_pixels bm 0 (data, 3 * 0) = (data', k')"
    by (cases "embed_pixels bm 0 (data, 3 * 0)")
  have "length data' = length data \<and>
         (\<forall>i < length data. data' ! i = embedded data bm (length bm) i)"
    by (rule embed_pixels_spec [OF _ _ run]) (simp_all add: embedded_0)
  moreover from run have "embed data bm = data'" by (simp add: embed_def)
  ultimately show ?thesis by simp
qed

lemma length_embed [simp]: "length (embed data bm) = length data"
  using embed_nth by blast

lemma lsb_keeps_high_bits: "((x AND 0xfe) OR (if b then 1 else 0)) AND 0xfe = x AND (0xfe :: byte)"
  by (simp add: bit.conj_disj_distrib2 word_bw_assocs)

lemma lsb_written: "((x AND 0xfe) OR (if b then 1 else 0)) AND 1 = (1 :: byte) \<longleftrightarrow> b"
  by (simp add: bit.conj_disj_distrib2 word_bw_assocs)

lemma scan_position:
  assumes "j < 3 * n"
  shows "4 * (j div 3) + j mod 3 < 4 * n"
    and "(4 * (j div 3) + j mod 3) mod 4 < 3"
    and "bitIndex (4 * (j div 3) + j mod 3) = j"
proof -
  define q r where "q = j div 3" and "r = j mod 3"
  then have r: "r < 3" and j: "j = 3 * q + r" by simp_all
  from assms have "q < n" unfolding q_def by simp
  then have "4 * q + 4 \<le> 4 * n" by simp
  with r show "4 * (j div 3) + j mod 3 < 4 * n" unfolding q_def r_def by linarith
  have dm: "(r + q * 4) div 4 = q" "(r + q * 4) mod 4 = r" using r by simp_all
  have e: "4 * (j div 3) + j mod 3 = r + q * 4" by (simp add: q_def r_def)
  show "(4 * (j div 3) + j mod 3) mod 4 < 3" unfolding e dm by (rule r)
  show "bitIndex (4 * (j div 3) + j mod 3) = j" unfolding e bitIndex_def dm using j by simp
qed

lemma lsbs_embed:
  assumes "k \<le> length bm" "length bm \<le> 3 * (length data div 4)"
  shows "lsbs (embed data bm) k = take k bm"
proof (rule nth_equalityI)
  show "length (lsbs (embed data bm) k) = length (take k bm)" using assms by simp
next
  fix j assume "j < length (lsbs (embed data bm) k)"
  then have j: "j < k" by simp
  let ?i = "4 * (j div 3) + j mod 3"
  from j assms have j3: "j < 3 * (length data div 4)" and jL: "j < length bm" by simp_all
  from scan_position [OF j3] have i: "?i < 4 * (length data div 4)"
    and m: "?i mod 4 < 3" and b: "bitIndex ?i = j" by blast+
  from i have il: "?i < length data" by simp
  with embed_nth have "embed data bm ! ?i = embedded data bm (length bm) ?i" by blast
  also have "\<dots> = (data ! ?i AND 0xfe) OR (if bm ! j then 1 else 0)"
    unfolding embedded_def b using m jL by (simp only: simp_thms if_True)
  finally have "readLSB (embed data bm) ?i = bm ! j"
    using il by (simp only: readLSB_def length_embed if_True lsb_written)
  then show "lsbs (embed data bm) k ! j = take k bm ! j"
    using j by (simp add: lsbs_def)
qed

section \<open>The marker test\<close>

lemma first_occurrence_indexOf:
  "first_occurrence p s k \<Longrightarrow> indexOf s p = int k \<and> includes_js s p"
  unfolding first_occurrence_def
  using indexOf_first [of k s p] includes_js_iff [of s p] by blast

lemma includes_first_occurrence:
  assumes "includes_js s p"
  obtains k where "first_occurrence p s k" "indexOf s p = int k"
  using indexOf_found [OF assms] unfolding first_occurrence_def by metis

lemma unframe_Some_iff:
  "unframe s = Some m \<longleftrightarrow>
     (\<exists>i e. first_occurrence START_MARKER s i \<and> first_occurrence END_MARKER s e \<and>
            i + 9 < e \<and> m = take (e - (i + 9)) (drop (i + 9) s))"
proof
  assume u: "unframe s = Some m"
  then have inc: "includes_js s START_MARKER" "includes_js s END_MARKER"
    by (auto simp: unframe_def split: if_splits)
  from includes_first_occurrence [OF inc(1)]
  obtain i where i: "first_occurrence START_MARKER s i" "indexOf s START_MARKER = int i" by blast
  from includes_first_occurrence [OF inc(2)]
  obtain e where e: "first_occurrence END_MARKER s e" "indexOf s END_MARKER = int e" by blast
  from u inc i(2) e(2) have gt: "i + 9 < e" and m: "m = substring s (int (i + 9)) (int e)"
    by (auto simp: unframe_def Let_def split: if_splits)
  from gt m have "m = take (e - (i + 9)) (drop (i + 9) s)"
    by (simp only: substring_nat [OF less_imp_le])
  with i(1) e(1) gt show "\<exists>i e. first_occurrence START_MARKER s i \<and> first_occurrence END_MARKER s e \<and>
            i + 9 < e \<and> m = take (e - (i + 9)) (drop (i + 9) s)" by blast
next
  assume "\<exists>i e. first_occurrence START_MARKER s i \<and> first_occurrence END_MARKER s e \<and>
            i + 9 < e \<and> m = take (e - (i + 9)) (drop (i + 9) s)"
  then obtain i e where i: "first_occurrence START_MARKER s i"
    and e: "first_occurrence END_MARKER s e" and gt: "i + 9 < e"
    and m: "m = take (e - (i + 9)) (drop (i + 9) s)" by blast
  from first_occurrence_indexOf [OF i] first_occurrence_indexOf [OF e]
  have idx: "indexOf s START_MARKER = int i" "includes_js s START_MARKER"
    "indexOf s END_MARKER = int e" "includes_js s END_MARKER" by simp_all
  have "substring s (int (i + 9)) (int e) = take (e - (i + 9)) (drop (i + 9) s)"
    using gt by (simp only: substring_nat [OF less_imp_le])
  with idx gt m show "unframe s = Some m" by (simp add: unframe_def Let_def)
qed

lemma unframe_None_iff:
  "unframe s = None \<longleftrightarrow>
     \<not> (\<exists>i e. first_occurrence START_MARKER s i \<and> first_occurrence END_MARKER s e \<and> i + 9 < e)"
proof -
  have "unframe s \<noteq> None \<longleftrightarrow> (\<exists>m. unframe s = Some m)" by auto
  also have "\<dots> \<longleftrightarrow> (\<exists>i e. first_occurrence START_MARKER s i \<and> first_occurrence END_MARKER s e \<and> i + 9 < e)"
    unfolding unframe_Some_iff by blast
  finally show ?thesis by blast
qed

lemma unframe_no_END: "\<not> includes_js s END_MARKER \<Longrightarrow> unframe s = None"
  by (simp add: unframe_def)

lemma unframe_length:
  assumes "unframe s = Some m"
  shows "length m + 16 \<le> length s" "m \<noteq> []"
proof -
  from assms obtain i e where i: "first_occurrence START_MARKER s i"
    and e: "first_occurrence END_MARKER s e" and gt: "i + 9 < e"
    and m: "m = take (e - (i + 9)) (drop (i + 9) s)"
    unfolding unframe_Some_iff by blast
  from e have "prefix END_MARKER (drop e s)" "e \<le> length s"
    unfolding first_occurrence_def by blast+
  then have "e + length END_MARKER \<le> length s" by (rule prefix_drop_length)
  then have el: "e + 7 \<le> length s" by simp
  with gt m have "length m = e - (i + 9)" by simp
  with gt el show "length m + 16 \<le> length s" "m \<noteq> []" by auto
qed

lemma END_no_border:
  "0 < r \<Longrightarrow> r < 7 \<Longrightarrow> \<not> prefix (drop r END_MARKER) END_MARKER"
proof -
  assume "0 < r" "r < 7"
  then consider "r = 1" | "r = 2" | "r = 3" | "r = 4" | "r = 5" | "r = 6" by linarith
  then show ?thesis by cases (simp_all add: END_MARKER_eq)
qed

lemma END_not_in_START:
  "j < 9 \<Longrightarrow> \<not> prefix END_MARKER (drop j START_MARKER @ rest)"
proof -
  assume "j < 9"
  then consider "j = 0" | "j = 1" | "j = 2" | "j = 3" | "j = 4" | "j = 5" | "j = 6"
    | "j = 7" | "j = 8" by linarith
  then show ?thesis by cases (simp_all add: START_MARKER_eq END_MARKER_eq)
qed

lemma END_not_before:
  assumes "\<not> includes_js m END_MARKER" "j < 9 + length m"
  shows "\<not> prefix END_MARKER (drop j (messageWithMarker m))"
proof (cases "j < 9")
  case True
  then have "drop j (messageWithMarker m) = drop j START_MARKER @ m @ END_MARKER"
    by (simp add: messageWithMarker_def)
  with True show ?thesis by (simp only: END_not_in_START not_False_eq_True)
next
  case False
  define j' where "j' = j - 9"
  with False assms(2) have j': "j' < length m" "j = 9 + j'" by simp_all
  define x where "x = drop j' m"
  have d: "drop j (messageWithMarker m) = x @ END_MARKER"
    using j'(1) by (simp add: messageWithMarker_def j'(2) x_def)
  have xl: "0 < length x" using j'(1) by (simp add: x_def)
  show ?thesis
  proof
    assume "prefix END_MARKER (drop j (messageWithMarker m))"
    then have "prefix END_MARKER x \<or> (\<exists>us. END_MARKER = x @ us \<and> prefix us END_MARKER)"
      unfolding d by (simp only: prefix_append)
    then show False
    proof
      assume "prefix END_MARKER x"
      then have "prefix END_MARKER (drop j' m)" by (simp add: x_def)
      with j'(1) have "includes_js m END_MARKER"
        unfolding includes_js_iff by (intro exI [of _ j']) simp
      with assms(1) show False by contradiction
    next
      assume "\<exists>us. END_MARKER = x @ us \<and> prefix us END_MARKER"
      then obtain us where us: "END_MARKER = x @ us" "prefix us END_MARKER" by blast
      show False
      proof (cases "length x < 7")
        case True
        from us(1) have "drop (length x) END_MARKER = us" by (metis append_eq_conv_conj)
        with us(2) END_no_border [OF xl True] show False by simp
      next
        case False
        from us(1) have "length x + length us = 7"
          by (metis length_append length_END_MARKER)
        with False have "length us = 0" by linarith
        then have "us = []" by simp
        with us(1) have "prefix END_MARKER (drop j' m)" by (simp add: x_def)
        with j'(1) have "includes_js m END_MARKER"
          unfolding includes_js_iff by (intro exI [of _ j']) simp
        with assms(1) show False by contradiction
      qed
    qed
  qed
qed

lemma first_END_framed:
  assumes "\<not> includes_js m END_MARKER"
  shows "first_occurrence END_MARKER (messageWithMarker m) (9 + length m)"
  unfolding first_occurrence_def
  using END_not_before [OF assms] by (simp add: messageWithMarker_def)

lemma first_START_framed: "first_occurrence START_MARKER (messageWithMarker m) 0"
  by (simp add: first_occurrence_def messageWithMarker_def)

lemma unframe_framed:
  assumes "m \<noteq> []" "\<not> includes_js m END_MARKER"
  shows "unframe (messageWithMarker m) = Some m"
proof -
  have "take (9 + length m - (0 + 9)) (drop (0 + 9) (messageWithMarker m)) = m"
    by (simp add: messageWithMarker_def)
  moreover have "0 + 9 < 9 + length m" using assms(1) by simp
  ultimately show ?thesis
    unfolding unframe_Some_iff
    using first_START_framed [of m] first_END_framed [OF assms(2)] by metis
qed

lemma unframe_framed_prefix:
  assumes "\<not> includes_js m END_MARKER" "n < length m + 16"
  shows "unframe (take n (messageWithMarker m)) = None"
proof (rule unframe_no_END, rule notI)
  assume "includes_js (take n (messageWithMarker m)) END_MARKER"
  then obtain k where k: "k \<le> length (take n (messageWithMarker m))"
    "prefix END_MARKER (drop k (take n (messageWithMarker m)))"
    unfolding includes_js_iff by blast
  from prefix_drop_length [OF k(2,1)] have "k + 7 \<le> n" by simp
  with assms(2) have "k < 9 + length m" by simp
  moreover have "prefix (drop k (take n (messageWithMarker m))) (drop k (messageWithMarker m))"
    by (simp add: drop_take take_is_prefix)
  with k(2) have "prefix END_MARKER (drop k (messageWithMarker m))"
    by (rule prefix_order.trans)
  ultimately show False using END_not_before [OF assms(1)] by blast
qed

lemma first_occurrence_iff_indexOf: "first_occurrence p s k \<longleftrightarrow> indexOf s p = int k"
proof
  assume "first_occurrence p s k"
  then show "indexOf s p = int k" using first_occurrence_indexOf by blast
next
  assume a: "indexOf s p = int k"
  then have "includes_js s p" by (simp add: includes_js_def)
  from includes_first_occurrence [OF this] a show "first_occurrence p s k" by auto
qed

section \<open>What the decoder can see\<close>

lemma check_short: "k < 136 \<Longrightarrow> check data k = None"
proof (cases "check data k")
  case None
  then show ?thesis .
next
  case (Some m)
  assume k: "k < 136"
  from Some have "unframe (extractTextFromBinary (lsbs data k)) = Some m"
    by (simp add: check_def split: if_splits)
  from unframe_length [OF this] have "17 \<le> k div 8"
    by (cases m) (simp_all add: length_extractTextFromBinary)
  moreover from k have "k div 8 \<le> 135 div 8" by (intro div_le_mono) simp
  ultimately show ?thesis by simp
qed

lemma check_nonempty: "check data k = Some m \<Longrightarrow> m \<noteq> []"
  using unframe_length(2) by (auto simp: check_def split: if_splits)

lemma maxPixels_le: "maxPixels data \<le> 100000"
  by (simp add: maxPixels_def)

lemma maxPixels_small: "length data < 4 * n \<Longrightarrow> maxPixels data \<le> n"
proof -
  assume "length data < 4 * n"
  then have "length data + 3 < 4 * n + 3" by simp
  then have "(length data + 3) div 4 \<le> (4 * n + 3) div 4" by (intro div_le_mono) simp
  also have "(4 * n + 3) div 4 = n" by simp
  finally show ?thesis by (simp add: maxPixels_def)
qed

lemma decodeMessage_nonempty: "decodeMessage data = Some m \<Longrightarrow> m \<noteq> []"
  unfolding decodeMessage_scan scan_Some_iff using check_nonempty by blast

lemma readLSB_take: "i < n \<Longrightarrow> readLSB (take n data) i = readLSB data i"
  by (simp add: readLSB_def)

lemma lsbs_take:
  assumes "k \<le> 3 * n"
  shows "lsbs (take (4 * n) data) k = lsbs data k"
proof -
  have "readLSB (take (4 * n) data) (4 * (j div 3) + j mod 3) = readLSB data (4 * (j div 3) + j mod 3)"
    if "j < k" for j
  proof -
    from that assms have "j < 3 * n" by simp
    from scan_position(1) [OF this] show ?thesis by (rule readLSB_take)
  qed
  then show ?thesis by (simp add: lsbs_def)
qed

lemma check_take: "k \<le> 3 * n \<Longrightarrow> check (take (4 * n) data) k = check data k"
  by (simp add: check_def lsbs_take)

lemma scan_take:
  "k + m \<le> 3 * n \<Longrightarrow> scan (take (4 * n) data) k m = scan data k m"
proof (induction m arbitrary: k)
  case 0
  then show ?case by simp
next
  case (Suc m)
  then have "Suc k \<le> 3 * n" "Suc k + m \<le> 3 * n" by simp_all
  with Suc.IH [of "Suc k"] show ?case by (simp add: check_take split: option.splits)
qed

lemma maxPixels_take: "maxPixels (take 400000 data) = maxPixels data"
proof (cases "length data \<le> 400000")
  case True
  then show ?thesis by simp
next
  case False
  then have "400003 \<le> length data + 3" by simp
  then have "400003 div 4 \<le> (length data + 3) div 4" by (rule div_le_mono)
  then have "100000 \<le> (length data + 3) div 4" by simp
  with False show ?thesis by (simp add: maxPixels_def min_def)
qed

lemma decodeMessage_take: "decodeMessage (take 400000 data) = decodeMessage data"
proof -
  have "3 * maxPixels data \<le> 3 * 100000" using maxPixels_le [of data] by simp
  then have "scan (take (4 * 100000) data) 0 (3 * maxPixels data) = scan data 0 (3 * maxPixels data)"
    by (intro scan_take) simp
  then show ?thesis by (simp add: decodeMessage_scan maxPixels_take)
qed

section \<open>Decoding what was embedded\<close>

lemma latin1_take: "latin1 s \<Longrightarrow> latin1 (take n s)"
  unfolding latin1_def by (meson in_set_takeD)

lemma length_messageWithMarker [simp]: "length (messageWithMarker m) = length m + 16"
  by (simp add: messageWithMarker_def)

lemma extractText_framed_prefix:
  assumes "latin1 m" "latin1 rest" "n \<le> length m + 16"
  shows "extractTextFromBinary (take (8 * n) (toBinary (messageWithMarker m @ rest)))
           = take n (messageWithMarker m)"
proof -
  have l: "latin1 (messageWithMarker m @ rest)"
    using assms(1,2) by (simp add: latin1_messageWithMarker)
  have "take (8 * n) (toBinary (messageWithMarker m @ rest))
          = toBinary (take n (messageWithMarker m @ rest))"
    using l by (rule take_toBinary)
  also have "take n (messageWithMarker m @ rest) = take n (messageWithMarker m)"
    using assms(3) by simp
  finally have "extractTextFromBinary (take (8 * n) (toBinary (messageWithMarker m @ rest)))
          = extractTextFromBinary (toBinary (take n (messageWithMarker m)) @ [])" by simp
  also have "\<dots> = take n (messageWithMarker m) @ extractTextFromBinary []"
    using assms(1) by (intro extractTextFromBinary_toBinary latin1_take)
      (simp add: latin1_messageWithMarker)
  finally show ?thesis by simp
qed

lemma check_embed_framed:
  assumes "latin1 m" "latin1 rest" "\<not> includes_js m END_MARKER"
    and "bm = toBinary (messageWithMarker m @ rest)"
    and "length bm \<le> 3 * (length data div 4)"
  shows "m \<noteq> [] \<Longrightarrow> check (embed data bm) (8 * (length m + 16)) = Some m"
    and "j < 8 * (length m + 16) \<Longrightarrow> check (embed data bm) j = None"
proof -
  have l: "latin1 (messageWithMarker m @ rest)"
    using assms(1,2) by (simp add: latin1_messageWithMarker)
  have len: "length bm = 8 * (length m + 16 + length rest)"
    unfolding assms(4) using l by (simp add: length_toBinary)
  have decoded: "extractTextFromBinary (lsbs (embed data bm) (8 * n)) = take n (messageWithMarker m)"
    if "n \<le> length m + 16" for n
  proof -
    from that len have "8 * n \<le> length bm" by simp
    then have "lsbs (embed data bm) (8 * n) = take (8 * n) bm"
      using assms(5) by (rule lsbs_embed)
    then show ?thesis
      unfolding assms(4) using assms(1,2) that by (simp only: extractText_framed_prefix)
  qed
  show "check (embed data bm) (8 * (length m + 16)) = Some m" if "m \<noteq> []"
  proof -
    have "extractTextFromBinary (lsbs (embed data bm) (8 * (length m + 16))) = messageWithMarker m"
      using decoded [of "length m + 16"] by simp
    moreover have "unframe (messageWithMarker m) = Some m"
      using that assms(3) by (rule unframe_framed)
    ultimately show ?thesis by (simp add: check_def)
  qed
  show "check (embed data bm) j = None" if j: "j < 8 * (length m + 16)"
  proof (cases "j mod 8 = 0 \<and> j \<ge> 8 * 9")
    case False
    then show ?thesis by (auto simp: check_def)
  next
    case True
    then obtain n where n: "j = 8 * n" by auto
    with j have nlt: "n < length m + 16" by simp
    then have "extractTextFromBinary (lsbs (embed data bm) (8 * n)) = take n (messageWithMarker m)"
      by (intro decoded) simp
    moreover have "unframe (take n (messageWithMarker m)) = None"
      using assms(3) nlt by (rule unframe_framed_prefix)
    ultimately show ?thesis using True by (simp add: check_def n)
  qed
qed

lemma maxPixels_embed_ge:
  assumes "k \<le> 3 * (length data div 4)" "k \<le> 300000"
  shows "k \<le> 3 * maxPixels (embed data bm)"
proof -
  have "length data div 4 \<le> (length data + 3) div 4" by (intro div_le_mono) simp
  with assms(1) have "k \<le> 3 * ((length data + 3) div 4)" by simp
  with assms(2) show ?thesis by (simp add: maxPixels_def min_def)
qed

lemma decode_embed_framed:
  assumes "m \<noteq> []" "latin1 m" "latin1 rest" "\<not> includes_js m END_MARKER"
    and "bm = toBinary (messageWithMarker m @ rest)"
    and "length bm \<le> 3 * (length data div 4)"
    and "8 * (length m + 16) \<le> 300000"
  shows "decodeMessage (embed data bm) = Some m"
proof -
  let ?L = "8 * (length m + 16)"
  have l: "latin1 (messageWithMarker m @ rest)"
    using assms(2,3) by (simp add: latin1_messageWithMarker)
  have "length bm = 8 * (length m + 16 + length rest)"
    unfolding assms(5) using l by (simp add: length_toBinary)
  with assms(6) have "?L \<le> 3 * (length data div 4)" by simp
  then have "?L \<le> 3 * maxPixels (embed data bm)"
    using assms(7) by (rule maxPixels_embed_ge)
  moreover have "0 < ?L" by simp
  moreover have "check (embed data bm) ?L = Some m"
    using check_embed_framed(1) [OF assms(2,3,4,5,6) assms(1)] .
  moreover have "\<forall>i. 0 < i \<and> i < ?L \<longrightarrow> check (embed data bm) i = None"
    using check_embed_framed(2) [OF assms(2,3,4,5,6)] by blast
  ultimately have "\<exists>j. 0 < j \<and> j \<le> 0 + 3 * maxPixels (embed data bm) \<and>
      check (embed data bm) j = Some m \<and>
      (\<forall>i. 0 < i \<and> i < j \<longrightarrow> check (embed data bm) i = None)"
    by (intro exI [of _ ?L]) simp
  then show ?thesis unfolding decodeMessage_scan scan_Some_iff .
qed

lemma decode_embed_beyond_ceiling:
  assumes "latin1 m" "\<not> includes_js m END_MARKER"
    and "length (binaryMessage m) \<le> 3 * (length data div 4)"
    and "300000 < 8 * (length m + 16)"
  shows "decodeMessage (embed data (binaryMessage m)) = None"
proof -
  have bm: "binaryMessage m = toBinary (messageWithMarker m @ [])"
    by (simp add: binaryMessage_def)
  have "latin1 []" by (simp add: latin1_def)
  note chk = check_embed_framed(2) [OF assms(1) this assms(2) bm assms(3)]
  have "check (embed data (binaryMessage m)) j = None"
    if "j \<le> 0 + 3 * maxPixels (embed data (binaryMessage m))" for j
  proof -
    from that maxPixels_le [of "embed data (binaryMessage m)"] have "j \<le> 300000" by simp
    with assms(4) show ?thesis by (intro chk) simp
  qed
  then show ?thesis unfolding decodeMessage_scan scan_None_iff by blast
qed

lemma no_lt_no_END: "60 \<notin> set m \<Longrightarrow> \<not> includes_js m END_MARKER"
proof
  assume a: "60 \<notin> set m" and "includes_js m END_MARKER"
  then obtain k where "prefix END_MARKER (drop k m)"
    unfolding includes_js_iff by blast
  then obtain zs where "drop k m = END_MARKER @ zs" by (auto simp: prefix_def)
  then have "60 \<in> set (drop k m)" by (simp add: END_MARKER_eq)
  then have "60 \<in> set m" by (rule in_set_dropD)
  with a show False by contradiction
qed

lemma extractText_take:
  "extractTextFromBinary (take (8 * n) bs) = take n (extractTextFromBinary bs)"
proof (induction n arbitrary: bs)
  case 0
  then show ?case by simp
next
  case (Suc n)
  show ?case
  proof (cases "length bs < 8")
    case True
    then show ?thesis by (simp add: extractTextFromBinary_short)
  next
    case False
    define b8 rest where "b8 = take 8 bs" and "rest = drop 8 bs"
    with False have bs: "bs = b8 @ rest" and l: "length b8 = 8" by simp_all
    have "take (8 * Suc n) bs = b8 @ take (8 * n) rest" unfolding bs using l by simp
    with Suc.IH [of rest] l show ?thesis
      unfolding bs by (simp add: extractTextFromBinary_chunk)
  qed
qed

lemma includes_js_take: "includes_js (take n s) p \<Longrightarrow> includes_js s p"
proof -
  assume "includes_js (take n s) p"
  then obtain k where k: "k \<le> length (take n s)" "prefix p (drop k (take n s))"
    unfolding includes_js_iff by blast
  have "prefix (drop k (take n s)) (drop k s)" by (simp add: drop_take take_is_prefix)
  with k(2) have "prefix p (drop k s)" by (rule prefix_order.trans)
  moreover from k(1) have "k \<le> length s" by simp
  ultimately show ?thesis unfolding includes_js_iff by blast
qed

lemma decode_embed_no_END:
  assumes "\<not> includes_js (extractTextFromBinary bm) END_MARKER"
    and "length bm \<le> 3 * (length data div 4)"
    and "3 * maxPixels (embed data bm) \<le> length bm"
  shows "decodeMessage (embed data bm) = None"
proof -
  have "check (embed data bm) j = None" if "j \<le> 0 + 3 * maxPixels (embed data bm)" for j
  proof (cases "j mod 8 = 0 \<and> j \<ge> 8 * 9")
    case False
    then show ?thesis by (auto simp: check_def)
  next
    case True
    then obtain n where n: "j = 8 * n" by auto
    from that assms(3) have "j \<le> length bm" by simp
    then have "lsbs (embed data bm) j = take j bm" using assms(2) by (rule lsbs_embed)
    then have "extractTextFromBinary (lsbs (embed data bm) j) = take n (extractTextFromBinary bm)"
      by (simp add: n extractText_take)
    moreover have "\<not> includes_js (take n (extractTextFromBinary bm)) END_MARKER"
      using assms(1) includes_js_take by blast
    ultimately show ?thesis by (simp add: check_def unframe_no_END)
  qed
  then show ?thesis unfolding decodeMessage_scan scan_None_iff by blast
qed

section \<open>Claims about the framing and the capacity gate\<close>

text \<open>
  C3, amended. For every message whose code units are all below 256, the bit string that
  \<open>encodeMessage\<close> builds is the framing of the specification: one byte per character of
  \<open><<START>>\<close> + message + \<open><<END>>\<close>, equal to the character's code, expanded
  most significant bit first into exactly eight bits, in character order.
\<close>

theorem frame_latin1:
  "latin1 message \<Longrightarrow> binaryMessage message = frame_spec message"
  by (simp add: binaryMessage_def frame_spec_def toBinary_spec latin1_messageWithMarker)

theorem frame_latin1_witness:
  "latin1 (js ''hi'') \<and> binaryMessage (js ''hi'') = frame_spec (js ''hi'')"
  using frame_latin1 [of "js ''hi''"] by (simp add: latin1_js)

text \<open>
  C3 as stated fails at the one-character message U+0100: \<open>toString(2)\<close> gives nine
  digits, \<open>padStart(8, "0")\<close> leaves them alone, and no bit is discarded.
\<close>

theorem frame_charcode_counterexample:
  "binaryMessage [0x100] \<noteq> frame_spec [0x100]"
proof
  assume "binaryMessage [0x100] = frame_spec [0x100]"
  then have "length (binaryMessage [0x100]) = length (frame_spec [0x100])" by simp
  then show False by (simp add: length_binaryMessage_256 length_frame_spec)
qed

text \<open>
  C4, at the failing input. The framed bit string of the one-character message U+0100 has
  137 bits, which is not a multiple of 8.
\<close>

theorem frame_length_code_unit_256:
  "length (binaryMessage [0x100]) = 137 \<and> \<not> 8 dvd length (binaryMessage [0x100])"
  by (simp add: length_binaryMessage_256)

text \<open>
  C6. A message whose framed bit length exceeds \<open>width * height * 3\<close> is rejected with
  \<open>CapacityExceeded\<close>, and the pixel buffer is left exactly as it was.
\<close>

theorem capacity_gate:
  "length (binaryMessage message) > width * height * 3 \<Longrightarrow>
   encodeMessage width height data message = (Inl CapacityExceeded, data)"
  by (simp add: encodeMessage_def)

theorem capacity_gate_witness:
  "length (binaryMessage (js ''hi'')) > 2 * 2 * 3 \<and>
   encodeMessage 2 2 [1, 2, 3, 255, 4, 5, 6, 255, 7, 8, 9, 255, 10, 11, 12, 255] (js ''hi'')
     = (Inl CapacityExceeded, [1, 2, 3, 255, 4, 5, 6, 255, 7, 8, 9, 255, 10, 11, 12, 255])"
proof -
  have h: "length (binaryMessage (js ''hi'')) > 2 * 2 * 3"
    by (simp add: length_binaryMessage latin1_js)
  show ?thesis using h capacity_gate [OF h] by simp
qed

text \<open>
  C2, amended. A message whose framed bit string exactly fills the capacity is accepted and
  one that is one bit longer is rejected with \<open>CapacityExceeded\<close>. The markers add 16
  bytes (9 + 7): a message of code units below 256 frames to \<open>8 * (length + 16)\<close> bits. So
  for a 10 by 10 image (300 bits) every such message of 21 characters is accepted and every
  message of 22 characters is rejected.
\<close>

theorem capacity_boundary:
  "(length (binaryMessage message) = width * height * 3 \<longrightarrow>
      fst (encodeMessage width height data message) = Inr ()) \<and>
   (length (binaryMessage message) = width * height * 3 + 1 \<longrightarrow>
      fst (encodeMessage width height data message) = Inl CapacityExceeded) \<and>
   (latin1 message \<longrightarrow> length (binaryMessage message) = 8 * (length message + 16)) \<and>
   (latin1 message \<and> length message = 21 \<longrightarrow>
      fst (encodeMessage 10 10 data message) = Inr ()) \<and>
   (length message = 22 \<longrightarrow>
      fst (encodeMessage 10 10 data message) = Inl CapacityExceeded)"
proof (intro conjI impI)
  assume "length message = 22"
  then have "length (binaryMessage message) > 10 * 10 * 3"
    using length_binaryMessage_ge [of message] by simp
  then show "fst (encodeMessage 10 10 data message) = Inl CapacityExceeded"
    by (simp add: encodeMessage_def)
qed (simp_all add: encodeMessage_def length_binaryMessage)

theorem capacity_boundary_witness:
  "length (binaryMessage (js ''ab'')) = 8 * 6 * 3 \<and>
   fst (encodeMessage 8 6 (replicate 192 0) (js ''ab'')) = Inr () \<and>
   length (binaryMessage (js ''a'')) = 9 * 5 * 3 + 1 \<and>
   fst (encodeMessage 9 5 (replicate 180 0) (js ''a'')) = Inl CapacityExceeded \<and>
   latin1 (js ''abcdefghijklmnopqrstu'') \<and> length (js ''abcdefghijklmnopqrstu'') = 21 \<and>
   length (binaryMessage (js ''abcdefghijklmnopqrstu'')) = 296 \<and>
   fst (encodeMessage 10 10 (replicate 400 0) (js ''abcdefghijklmnopqrstu'')) = Inr () \<and>
   length (js ''abcdefghijklmnopqrstuv'') = 22 \<and>
   fst (encodeMessage 10 10 (replicate 400 0) (js ''abcdefghijklmnopqrstuv'')) = Inl CapacityExceeded"
  using capacity_boundary [of "js ''ab''" 8 6 "replicate 192 0"]
    capacity_boundary [of "js ''a''" 9 5 "replicate 180 0"]
    capacity_boundary [of "js ''abcdefghijklmnopqrstu''" 10 10 "replicate 400 0"]
    capacity_boundary [of "js ''abcdefghijklmnopqrstuv''" 10 10 "replicate 400 0"]
  by (simp add: latin1_js length_binaryMessage)

text \<open>
  C2 as stated fails on a 10 by 10 image: a 21-character ASCII message frames to 296 bits
  and is accepted.
\<close>

theorem capacity_21_chars_counterexample:
  "fst (encodeMessage 10 10 (replicate 400 0) (js ''abcdefghijklmnopqrstu'')) \<noteq> Inl CapacityExceeded"
  by (simp add: encodeMessage_def length_binaryMessage latin1_js)

section \<open>Claims about the embedding\<close>

text \<open>
  C7. Embedding a bit string into a pixel buffer keeps the length of the buffer; every alpha
  byte (index 3 modulo 4) keeps its value; every colour byte whose position in scan order is
  at or beyond the length of the bit string keeps its value; and every byte keeps all bits
  but the least significant one.
\<close>

theorem embed_frame:
  "length (embed data bm) = length data \<and>
   (\<forall>i < length data.
      (i mod 4 = 3 \<longrightarrow> embed data bm ! i = data ! i) \<and>
      (i mod 4 < 3 \<and> length bm \<le> bitIndex i \<longrightarrow> embed data bm ! i = data ! i) \<and>
      embed data bm ! i AND 0xfe = data ! i AND 0xfe)"
proof (intro conjI allI impI)
  show "length (embed data bm) = length data" by simp
next
  fix i assume "i < length data" "i mod 4 = 3"
  with embed_nth show "embed data bm ! i = data ! i" by (simp add: embedded_def)
next
  fix i assume "i < length data" "i mod 4 < 3 \<and> length bm \<le> bitIndex i"
  with embed_nth show "embed data bm ! i = data ! i" by (simp add: embedded_def)
next
  fix i assume "i < length data"
  with embed_nth have "embed data bm ! i = embedded data bm (length bm) i" by blast
  moreover have "embedded data bm (length bm) i AND 0xfe = data ! i AND 0xfe"
    by (simp add: embedded_def lsb_keeps_high_bits)
  ultimately show "embed data bm ! i AND 0xfe = data ! i AND 0xfe" by simp
qed

theorem embed_frame_witness:
  "length (embed [255, 0, 255, 77, 1, 2, 3, 88] [False, True, False, True]) = 8 \<and>
   embed [255, 0, 255, 77, 1, 2, 3, 88] [False, True, False, True] ! 3 = 77 \<and>
   embed [255, 0, 255, 77, 1, 2, 3, 88] [False, True, False, True] ! 7 = 88 \<and>
   embed [255, 0, 255, 77, 1, 2, 3, 88] [False, True, False, True] ! 5 = 2 \<and>
   embed [255, 0, 255, 77, 1, 2, 3, 88] [False, True, False, True] ! 0 AND 0xfe = 0xfe"
  using embed_frame [of "[255, 0, 255, 77, 1, 2, 3, 88]" "[False, True, False, True]",
      THEN conjunct2, rule_format, of 3]
    embed_frame [of "[255, 0, 255, 77, 1, 2, 3, 88]" "[False, True, False, True]",
      THEN conjunct2, rule_format, of 7]
    embed_frame [of "[255, 0, 255, 77, 1, 2, 3, 88]" "[False, True, False, True]",
      THEN conjunct2, rule_format, of 5]
    embed_frame [of "[255, 0, 255, 77, 1, 2, 3, 88]" "[False, True, False, True]",
      THEN conjunct2, rule_format, of 0]
    embed_frame [of "[255, 0, 255, 77, 1, 2, 3, 88]" "[False, True, False, True]", THEN conjunct1]
  by (simp add: bitIndex_def)

section \<open>Claims about the marker test\<close>

text \<open>
  C5, amended. \<open>unframe\<close> takes the first occurrence of \<open><<START>>\<close> and the first
  occurrence of \<open><<END>>\<close> anywhere in the text, not only after the start marker. It
  returns the text between the two exactly when both occur and the end marker begins strictly
  after the position where the start marker ends, so that at least one character lies
  between them; in every other case it returns not-found. Only literal occurrences count.
\<close>

theorem unframe_semantics:
  "(unframe extractedText = Some message \<longleftrightarrow>
      (\<exists>i e. first_occurrence START_MARKER extractedText i \<and>
             first_occurrence END_MARKER extractedText e \<and> i + 9 < e \<and>
             message = take (e - (i + 9)) (drop (i + 9) extractedText))) \<and>
   (unframe extractedText = None \<longleftrightarrow>
      \<not> (\<exists>i e. first_occurrence START_MARKER extractedText i \<and>
               first_occurrence END_MARKER extractedText e \<and> i + 9 < e))"
  using unframe_Some_iff [of extractedText message] unframe_None_iff [of extractedText]
  by (rule conjI)

theorem unframe_semantics_witness:
  "first_occurrence START_MARKER (js ''x<<START>>hello<<END>>y'') 1 \<and>
   first_occurrence END_MARKER (js ''x<<START>>hello<<END>>y'') 15 \<and>
   unframe (js ''x<<START>>hello<<END>>y'') = Some (js ''hello'')"
proof -
  have "indexOf (js ''x<<START>>hello<<END>>y'') START_MARKER = int 1"
    by (simp add: indexOf_def js_def START_MARKER_eq)
  then have a: "first_occurrence START_MARKER (js ''x<<START>>hello<<END>>y'') 1"
    by (simp only: first_occurrence_iff_indexOf)
  have "indexOf (js ''x<<START>>hello<<END>>y'') END_MARKER = int 15"
    by (simp add: indexOf_def js_def END_MARKER_eq)
  then have b: "first_occurrence END_MARKER (js ''x<<START>>hello<<END>>y'') 15"
    by (simp only: first_occurrence_iff_indexOf)
  have c: "js ''hello'' = take (15 - (1 + 9)) (drop (1 + 9) (js ''x<<START>>hello<<END>>y''))"
    by (simp add: js_def)
  have "(1::nat) + 9 < 15" by simp
  with a b c have "\<exists>i e. first_occurrence START_MARKER (js ''x<<START>>hello<<END>>y'') i \<and>
             first_occurrence END_MARKER (js ''x<<START>>hello<<END>>y'') e \<and> i + 9 < e \<and>
             js ''hello'' = take (e - (i + 9)) (drop (i + 9) (js ''x<<START>>hello<<END>>y''))"
    by blast
  with unframe_semantics [of "js ''x<<START>>hello<<END>>y''" "js ''hello''"] a b
  show ?thesis by blast
qed

text \<open>
  C5 as stated, read position by position (the first \<open><<END>>\<close> after the start marker),
  fails on a text with an end marker before the start marker: the code finds the earlier
  \<open><<END>>\<close> and gives up.
\<close>

theorem unframe_end_before_start_counterexample:
  "unframe_spec (js ''<<END>><<START>>a<<END>>'') = Some (js ''a'') \<and>
   unframe (js ''<<END>><<START>>a<<END>>'') = None"
  by (simp add: unframe_spec_def unframe_def includes_js_def indexOf_def js_def
      START_MARKER_eq END_MARKER_eq)

text \<open>
  C9, amended. For every non-empty message that contains neither \<open><<START>>\<close> nor
  \<open><<END>>\<close>, unframing \<open><<START>>\<close> + message + \<open><<END>>\<close> returns the message.
\<close>

theorem unframe_roundtrip:
  "message \<noteq> [] \<Longrightarrow> \<not> includes_js message START_MARKER \<Longrightarrow>
   \<not> includes_js message END_MARKER \<Longrightarrow>
   unframe (messageWithMarker message) = Some message"
  by (rule unframe_framed)

theorem unframe_roundtrip_witness:
  "js ''hi'' \<noteq> [] \<and> \<not> includes_js (js ''hi'') START_MARKER \<and>
   \<not> includes_js (js ''hi'') END_MARKER \<and>
   unframe (messageWithMarker (js ''hi'')) = Some (js ''hi'')"
proof -
  have h: "js ''hi'' \<noteq> []" "\<not> includes_js (js ''hi'') START_MARKER"
    "\<not> includes_js (js ''hi'') END_MARKER"
    by (simp_all add: includes_js_def indexOf_def js_def START_MARKER_eq END_MARKER_eq)
  from h unframe_roundtrip [OF h] show ?thesis by blast
qed

text \<open>
  C9 as stated fails for the empty message: line 144 asks for \<open>endIndex > startIndex\<close>,
  and both are 9.
\<close>

theorem unframe_empty_message_counterexample:
  "\<not> includes_js [] START_MARKER \<and> \<not> includes_js [] END_MARKER \<and>
   unframe (messageWithMarker []) \<noteq> Some []"
  by (simp add: unframe_def includes_js_def indexOf_def messageWithMarker_def
      START_MARKER_eq END_MARKER_eq)

section \<open>Claims about the extraction\<close>

text \<open>
  C10. For every pixel buffer with fewer than 24 pixels (fewer than 96 bytes), extraction
  returns not-found, whatever the buffer holds.
\<close>

theorem small_buffer_not_found:
  "length data < 4 * 24 \<Longrightarrow> decodeMessage data = None"
proof -
  assume "length data < 4 * 24"
  then have "maxPixels data \<le> 24" by (rule maxPixels_small)
  then have "check data j = None" if "j \<le> 0 + 3 * maxPixels data" for j
    using that by (intro check_short) simp
  then show ?thesis unfolding decodeMessage_scan scan_None_iff by blast
qed

theorem small_buffer_not_found_witness:
  "length (replicate 92 (0xff :: byte)) < 4 * 24 \<and> decodeMessage (replicate 92 0xff) = None"
  using small_buffer_not_found [of "replicate 92 0xff"] by simp

text \<open>
  C8. Extraction looks at no more than 100000 pixels: the loop bound is at most 100000 and
  the result is the same on the first 400000 bytes of the buffer alone. It returns
  not-found exactly when none of the tests made within that bound succeeds, and otherwise
  the message of the first test that succeeds. The function is total and has no error
  result: reads beyond the end of the buffer count as zero bits.
\<close>

theorem extract_bounded:
  "maxPixels data \<le> 100000 \<and>
   decodeMessage data = decodeMessage (take (4 * 100000) data) \<and>
   (decodeMessage data = None \<longleftrightarrow>
      (\<forall>k. 0 < k \<and> k \<le> 3 * maxPixels data \<longrightarrow> check data k = None)) \<and>
   (\<forall>message. decodeMessage data = Some message \<longleftrightarrow>
      (\<exists>k. 0 < k \<and> k \<le> 3 * maxPixels data \<and> check data k = Some message \<and>
           (\<forall>j. 0 < j \<and> j < k \<longrightarrow> check data j = None)))"
  using maxPixels_le [of data] decodeMessage_take [of data]
    scan_None_iff [of data 0 "3 * maxPixels data"]
    scan_Some_iff [of data 0 "3 * maxPixels data"]
  by (simp add: decodeMessage_scan)

theorem extract_bounded_witness:
  "maxPixels (replicate 120 (0xff :: byte)) = 30 \<and> decodeMessage (replicate 120 0xff) = None"
proof -
  have m: "maxPixels (replicate 120 (0xff :: byte)) = 30" by (simp add: maxPixels_def)
  have "check (replicate 120 0xff) k = None" if "k \<le> 3 * maxPixels (replicate 120 (0xff :: byte))" for k
    using that by (intro check_short) (simp add: m)
  then have "\<forall>k. 0 < k \<and> k \<le> 3 * maxPixels (replicate 120 (0xff :: byte)) \<longrightarrow>
      check (replicate 120 0xff) k = None" by blast
  with m extract_bounded [of "replicate 120 0xff"] show ?thesis by blast
qed

section \<open>The round trip\<close>

text \<open>
  C1, amended. For every pixel buffer of \<open>width * height\<close> pixels and every message that is
  not empty, has only code units below 256, does not contain \<open><<END>>\<close>, and whose framed
  bit string is no longer than the capacity \<open>width * height * 3\<close> and no longer than the
  300000 bits of the first 100000 pixels: encoding succeeds, and decoding the resulting
  buffer returns exactly the message.
\<close>

theorem roundtrip:
  assumes "length data = 4 * (width * height)"
    and "message \<noteq> []"
    and "latin1 message"
    and "\<not> includes_js message END_MARKER"
    and "length (binaryMessage message) \<le> width * height * 3"
    and "length (binaryMessage message) \<le> 300000"
  shows "fst (encodeMessage width height data message) = Inr () \<and>
         decodeMessage (snd (encodeMessage width height data message)) = Some message"
proof -
  have enc: "encodeMessage width height data message = (Inr (), embed data (binaryMessage message))"
    using assms(5) by (simp add: encodeMessage_def)
  have bm: "binaryMessage message = toBinary (messageWithMarker message @ [])"
    by (simp add: binaryMessage_def)
  have r: "latin1 []" by (simp add: latin1_def)
  have fit: "length (binaryMessage message) \<le> 3 * (length data div 4)"
    using assms(1,5) by (simp add: mult.commute)
  have "8 * (length message + 16) \<le> 300000"
    using assms(6) length_binaryMessage [OF assms(3)] by simp
  with assms(2,3) r assms(4) bm fit
  have "decodeMessage (embed data (binaryMessage message)) = Some message"
    by (rule decode_embed_framed)
  with enc show ?thesis by simp
qed

theorem roundtrip_witness:
  "length (replicate 192 (0x5a :: byte)) = 4 * (8 * 6) \<and> js ''ab'' \<noteq> [] \<and> latin1 (js ''ab'') \<and>
   \<not> includes_js (js ''ab'') END_MARKER \<and>
   length (binaryMessage (js ''ab'')) \<le> 8 * 6 * 3 \<and>
   length (binaryMessage (js ''ab'')) \<le> 300000 \<and>
   fst (encodeMessage 8 6 (replicate 192 0x5a) (js ''ab'')) = Inr () \<and>
   decodeMessage (snd (encodeMessage 8 6 (replicate 192 0x5a) (js ''ab''))) = Some (js ''ab'')"
proof -
  have h: "length (replicate 192 (0x5a :: byte)) = 4 * (8 * 6)" "js ''ab'' \<noteq> []"
    "latin1 (js ''ab'')"
    by (simp_all add: latin1_js) (simp add: js_def)
  have e: "\<not> includes_js (js ''ab'') END_MARKER"
    by (rule no_lt_no_END) (simp add: js_def)
  have f: "length (binaryMessage (js ''ab'')) \<le> 8 * 6 * 3"
    "length (binaryMessage (js ''ab'')) \<le> 300000"
    by (simp_all add: length_binaryMessage latin1_js)
  from h e f roundtrip [OF h e f] show ?thesis by blast
qed

text \<open>
  C1 as stated fails in four ways, each on a message that fits the image. The empty message
  is never returned (line 144 wants \<open>endIndex > startIndex\<close>). A message that contains
  \<open><<END>>\<close> comes back cut at that point. A message with the code unit U+0200 frames to
  ten bits for that character, the decoder reads eight per character, and nothing is found.
  A message whose frame ends beyond the first 100000 pixels is not found either.
\<close>

theorem roundtrip_counterexample:
  "(length (binaryMessage []) \<le> 43 * 1 * 3 \<and>
    decodeMessage (snd (encodeMessage 43 1 (replicate 172 0) [])) \<noteq> Some []) \<and>
   (length (binaryMessage (js ''a<<END>>b'')) \<le> 67 * 1 * 3 \<and>
    decodeMessage (snd (encodeMessage 67 1 (replicate 268 0) (js ''a<<END>>b''))) = Some (js ''a'')) \<and>
   (length (binaryMessage [0x200]) \<le> 46 * 1 * 3 \<and>
    decodeMessage (snd (encodeMessage 46 1 (replicate 184 0) [0x200])) = None) \<and>
   (length (binaryMessage (replicate 37485 0x61)) \<le> 100003 * 1 * 3 \<and>
    decodeMessage (snd (encodeMessage 100003 1 (replicate 400012 0) (replicate 37485 0x61))) = None)"
proof (intro conjI)
  show "length (binaryMessage []) \<le> 43 * 1 * 3"
    by (simp add: length_binaryMessage latin1_def)
  show "decodeMessage (snd (encodeMessage 43 1 (replicate 172 0) [])) \<noteq> Some []"
    using decodeMessage_nonempty by blast
next
  have l: "latin1 (js ''a<<END>>b'')" by (rule latin1_js)
  show fits: "length (binaryMessage (js ''a<<END>>b'')) \<le> 67 * 1 * 3"
    by (simp add: length_binaryMessage l)
  have bm: "binaryMessage (js ''a<<END>>b'') = toBinary (messageWithMarker (js ''a'') @ js ''b<<END>>'')"
    by (simp add: binaryMessage_def messageWithMarker_def END_MARKER_def js_def)
  have "decodeMessage (embed (replicate 268 0) (binaryMessage (js ''a<<END>>b''))) = Some (js ''a'')"
  proof (rule decode_embed_framed [OF _ _ _ _ bm])
    show "js ''a'' \<noteq> []" by (simp add: js_def)
    show "latin1 (js ''a'')" "latin1 (js ''b<<END>>'')" by (rule latin1_js)+
    show "\<not> includes_js (js ''a'') END_MARKER" by (rule no_lt_no_END) (simp add: js_def)
    show "length (binaryMessage (js ''a<<END>>b'')) \<le> 3 * (length (replicate 268 (0 :: byte)) div 4)"
      by (simp add: length_binaryMessage l)
    show "8 * (length (js ''a'') + 16) \<le> 300000" by simp
  qed
  with fits show "decodeMessage (snd (encodeMessage 67 1 (replicate 268 0) (js ''a<<END>>b''))) = Some (js ''a'')"
    by (simp add: encodeMessage_def)
next
  have len: "length (binaryMessage [0x200]) = 138"
    by (simp add: binaryMessage_def messageWithMarker_def toBinary_append length_toBinary
        latin1_markers padStart_def toString2.simps [of 512] toString2.simps [of 256]
        toString2.simps [of 128] toString2.simps [of 64] toString2.simps [of 32]
        toString2.simps [of 16] toString2.simps [of 8] toString2.simps [of 4]
        toString2.simps [of 2] toString2.simps [of "Suc 0"])
  then show fits: "length (binaryMessage [0x200]) \<le> 46 * 1 * 3" by simp
  have noend: "\<not> includes_js (extractTextFromBinary (binaryMessage [0x200])) END_MARKER"
    by code_simp
  have "decodeMessage (embed (replicate 184 0) (binaryMessage [0x200])) = None"
    using noend by (rule decode_embed_no_END) (simp_all add: len maxPixels_def)
  with fits show "decodeMessage (snd (encodeMessage 46 1 (replicate 184 0) [0x200])) = None"
    by (simp add: encodeMessage_def)
next
  have l: "latin1 (replicate 37485 0x61)" by (simp add: latin1_def)
  show fits: "length (binaryMessage (replicate 37485 0x61)) \<le> 100003 * 1 * 3"
    by (simp add: length_binaryMessage l)
  have "decodeMessage (embed (replicate 400012 0) (binaryMessage (replicate 37485 0x61))) = None"
  proof (rule decode_embed_beyond_ceiling [OF l])
    show "\<not> includes_js (replicate 37485 0x61) END_MARKER" by (rule no_lt_no_END) simp
    show "length (binaryMessage (replicate 37485 0x61)) \<le> 3 * (length (replicate 400012 (0 :: byte)) div 4)"
      by (simp add: length_binaryMessage l)
    show "300000 < 8 * (length (replicate 37485 (0x61 :: codeunit)) + 16)" by simp
  qed
  with fits show "decodeMessage (snd (encodeMessage 100003 1 (replicate 400012 0) (replicate 37485 0x61))) = None"
    by (simp add: encodeMessage_def)
qed

end
